theory Spec2Isabelle
  imports Main "HOL-Library.Sublist"
begin

section \<open>Data model of the comment fetcher\<close>

text \<open>
  One output row, as the dictionaries appended to \<open>rows\<close> in
  \<open>fetch_all_comments\<close> (yt_fetch_comments.py). \<open>parent_id\<close> is \<open>None\<close> for a
  top-level comment and the thread id for a reply.
\<close>

record row =
  row_video_id :: string
  comment_id :: string
  parent_id :: "string option"
  author :: string
  like_count :: int
  published_at :: string
  updated_at :: string
  text_of :: string

section \<open>Final deduplication pass of \<open>main\<close>\<close>

text \<open>
  yt_fetch_comments.py, lines 241-244:
  \<^verbatim>\<open>
    seen = set(); clean = []
    for r in rows:
        if r["comment_id"] in seen: continue
        seen.add(r["comment_id"]); clean.append(r)
  \<close>
  The loop is a recursion over the remaining rows that threads \<open>seen\<close> and \<open>clean\<close>.
\<close>

fun dedup_loop :: "row list \<Rightarrow> string set \<Rightarrow> row list \<Rightarrow> row list" where
  "dedup_loop [] seen clean = clean"
| "dedup_loop (r # rs) seen clean =
     (if comment_id r \<in> seen then dedup_loop rs seen clean
      else dedup_loop rs (insert (comment_id r) seen) (clean @ [r]))"

definition dedup :: "row list \<Rightarrow> row list" where
  "dedup fetched = dedup_loop fetched {} []"

text \<open>
  The specification's wording, as a second definition to compare with: keep the first row
  of every \<open>comment_id\<close>, drop all later rows with the same id.
\<close>

fun keep_first :: "row list \<Rightarrow> row list" where
  "keep_first [] = []"
| "keep_first (r # rs) = r # keep_first (filter (\<lambda>x. comment_id x \<noteq> comment_id r) rs)"

section \<open>Compact relabelling of cluster labels\<close>

text \<open>
  cluster_comments.py, lines 73-88. \<open>groups\<close> is a Python dictionary, whose iteration
  order is the order in which keys were first inserted: an association list that keeps
  that order. Keys are the raw labels and, for noise rows, the running \<open>next_id\<close>.
\<close>

type_synonym groups = "(int \<times> nat list) list"

text \<open>\<open>groups[k] = v\<close>: replaces the value of an existing key in place, else appends.\<close>

fun dict_set :: "groups \<Rightarrow> int \<Rightarrow> nat list \<Rightarrow> groups" where
  "dict_set [] k v = [(k, v)]"
| "dict_set ((k', v') # g) k v =
     (if k' = k then (k', v) # g else (k', v') # dict_set g k v)"

text \<open>\<open>groups.setdefault(k, []).append(i)\<close>.\<close>

fun dict_append :: "groups \<Rightarrow> int \<Rightarrow> nat \<Rightarrow> groups" where
  "dict_append [] k i = [(k, [i])]"
| "dict_append ((k', v') # g) k i =
     (if k' = k then (k', v' @ [i]) # g else (k', v') # dict_append g k i)"

text \<open>
  \<^verbatim>\<open>
    for i, lab in enumerate(labels):
        if lab == -1:
            groups[next_id] = [i]; next_id += 1
        else:
            groups.setdefault(lab, []).append(i)
  \<close>
\<close>

fun build_groups :: "int list \<Rightarrow> nat \<Rightarrow> groups \<Rightarrow> int \<Rightarrow> groups" where
  "build_groups [] i groups next_id = groups"
| "build_groups (lab # labs) i groups next_id =
     (if lab = - 1 then build_groups labs (Suc i) (dict_set groups next_id [i]) (next_id + 1)
      else build_groups labs (Suc i) (dict_append groups lab i) next_id)"

text \<open>
  \<open>sorted(groups.values(), key=len, reverse=True)\<close>: Python's sort is stable, and with
  \<open>reverse=True\<close> elements of equal key keep their original order. \<open>sort_key\<close> is a
  stable insertion sort, here on the negated length.
\<close>

definition ordered_groups :: "groups \<Rightarrow> nat list list" where
  "ordered_groups groups = sort_key (\<lambda>g. - int (length g)) (map snd groups)"

text \<open>
  \<^verbatim>\<open>
    id_map = {}; cid = 1
    for g in ordered:
        for idx in g: id_map[idx] = cid
        cid += 1
  \<close>
\<close>

fun assign_ids :: "nat list list \<Rightarrow> int \<Rightarrow> (nat \<rightharpoonup> int) \<Rightarrow> (nat \<rightharpoonup> int)" where
  "assign_ids [] cid id_map = id_map"
| "assign_ids (g # gs) cid id_map =
     assign_ids gs (cid + 1) (fold (\<lambda>idx m. m(idx \<mapsto> cid)) g id_map)"

datatype py_error = KeyError nat

text \<open>\<open>[id_map[i] for i in range(len(out))]\<close>: a missing index raises \<open>KeyError\<close>.\<close>

fun lookup_all :: "(nat \<rightharpoonup> int) \<Rightarrow> nat list \<Rightarrow> py_error + int list" where
  "lookup_all id_map [] = Inr []"
| "lookup_all id_map (i # is) =
     (case id_map i of
        None \<Rightarrow> Inl (KeyError i)
      | Some c \<Rightarrow> (case lookup_all id_map is of Inl e \<Rightarrow> Inl e | Inr cs \<Rightarrow> Inr (c # cs)))"

definition compact_relabel :: "int list \<Rightarrow> py_error + int list" where
  "compact_relabel labels =
     lookup_all (assign_ids (ordered_groups (build_groups labels 0 [] 1)) 1 Map.empty)
       [0..<length labels]"

section \<open>The resumable fetcher \<open>fetch_all_comments\<close>\<close>

subsection \<open>Responses of the remote API\<close>

text \<open>
  The fields the code reads from a comment resource: \<open>r["id"]\<close> and, from
  \<open>r["snippet"]\<close>, five optional entries (each read with \<open>.get\<close> and a default).
\<close>

record snippet =
  authorDisplayName :: "string option"
  likeCount :: "int option"
  publishedAt :: "string option"
  updatedAt :: "string option"
  textOriginal :: "string option"

record comment =
  cid :: string
  snip :: snippet

text \<open>
  An item of a thread page: \<open>it["snippet"]["topLevelComment"]\<close>,
  \<open>it["snippet"].get("totalReplyCount", 0)\<close> and the inline replies
  \<open>it.get("replies", {}).get("comments", []) or []\<close>.
\<close>

record thread_item =
  topLevelComment :: comment
  totalReplyCount :: "int option"
  inline_replies :: "comment list"

record thread_page =
  t_items :: "thread_item list"
  t_next :: "string option"

record reply_page =
  r_items :: "comment list"
  r_next :: "string option"

text \<open>
  The remote service. A call either raises an exception, modelled by its message
  \<open>str(e)\<close> (\<open>Inl\<close>), or returns a page. The first argument is the number of remote calls
  the run has made before, so that the service may answer the same request differently
  at different times (a quota that runs out, a token that goes stale). The video id and
  the order are fixed for a run and are part of the service here.
\<close>

record remote =
  list_threads :: "nat \<Rightarrow> string option \<Rightarrow> string + thread_page"
  list_replies :: "nat \<Rightarrow> string \<Rightarrow> string option \<Rightarrow> string + reply_page"

subsection \<open>Traversal state, configuration and the running state of a call\<close>

text \<open>The \<open>state\<close> dictionary (lines 41-48), which is what a checkpoint file holds.\<close>

record traversal_state =
  st_video_id :: string
  st_order :: string
  page_token :: "string option"
  processed_top_level :: "string set"
  current_top_id :: "string option"
  reply_page_token :: "string option"

text \<open>
  The parameters of \<open>fetch_all_comments\<close>, and the module-level \<open>API_KEY\<close> read from the
  environment.
\<close>

record config =
  api_key :: "string option"
  video_id :: string
  order :: string
  max_top_level :: "int option"
  no_replies :: bool
  max_total :: "int option"
  save_state_path :: "string option"
  resume :: bool
  checkpoint_interval :: int

text \<open>
  What a run does that can be observed from outside, in the order it happens: remote
  calls with their results, rows appended to \<open>rows\<close>, and checkpoint writes.
\<close>

datatype event =
    CallThreads "string option" "string + thread_page"
  | CallReplies string "string option" "string + reply_page"
  | Emit row
  | Save traversal_state

text \<open>
  The mutable variables of a call: the \<open>state\<close> dictionary, \<open>rows\<close>, \<open>total_rows\<close>,
  \<open>fetched_threads\<close>, and the trace of events so far.
\<close>

record run =
  st :: traversal_state
  rows :: "row list"
  total_rows :: int
  fetched_threads :: int
  trace :: "event list"

text \<open>
  How a piece of the function ends: it falls through to the next statement, the function
  returns \<open>rows\<close>, an exception propagates to the caller, or the fuel of the model is used
  up (the loops of the source have no bound of their own).
\<close>

datatype status = Continue | Returned | Raised string | OutOfFuel

subsection \<open>Python's truth values and helpers\<close>

text \<open>An optional string is false when it is \<open>None\<close> or empty.\<close>

fun truthy :: "string option \<Rightarrow> bool" where
  "truthy None = False"
| "truthy (Some s) = (s \<noteq> [])"

text \<open>\<open>if limit and value >= limit\<close>: an integer limit is false when \<open>None\<close> or 0.\<close>

fun limit_hit :: "int option \<Rightarrow> int \<Rightarrow> bool" where
  "limit_hit None v = False"
| "limit_hit (Some k) v = (k \<noteq> 0 \<and> v \<ge> k)"

text \<open>\<open>needle in haystack\<close> on strings.\<close>

fun contains :: "string \<Rightarrow> string \<Rightarrow> bool" where
  "contains needle [] = (needle = [])"
| "contains needle (c # cs) = (prefix needle (c # cs) \<or> contains needle cs)"

text \<open>\<open>d.get(key, default)\<close>.\<close>

fun get_or :: "'a option \<Rightarrow> 'a \<Rightarrow> 'a" where
  "get_or None d = d"
| "get_or (Some v) d = v"

definition is_call :: "event \<Rightarrow> bool" where
  "is_call e = (case e of CallThreads _ _ \<Rightarrow> True | CallReplies _ _ _ \<Rightarrow> True | _ \<Rightarrow> False)"

definition ncalls :: "event list \<Rightarrow> nat" where
  "ncalls tr = length (filter is_call tr)"

text \<open>The row dictionary built at lines 88-94, 141-147, 158-164 and 184-190.\<close>

definition mk_row :: "config \<Rightarrow> string \<Rightarrow> string option \<Rightarrow> snippet \<Rightarrow> row" where
  "mk_row c i parent s =
     \<lparr>row_video_id = video_id c, comment_id = i, parent_id = parent,
      author = get_or (authorDisplayName s) [],
      like_count = get_or (likeCount s) 0,
      published_at = get_or (publishedAt s) [],
      updated_at = get_or (updatedAt s) (get_or (publishedAt s) []),
      text_of = get_or (textOriginal s) []\<rparr>"

text \<open>\<open>rows.append(...); total_rows += 1\<close>.\<close>

definition append_row :: "row \<Rightarrow> run \<Rightarrow> run" where
  "append_row x r =
     r\<lparr>rows := rows r @ [x], total_rows := total_rows r + 1, trace := trace r @ [Emit x]\<rparr>"

text \<open>\<open>save_state\<close> (lines 60-62) and \<open>maybe_checkpoint\<close> (lines 68-71).\<close>

definition save_state :: "config \<Rightarrow> run \<Rightarrow> run" where
  "save_state c r =
     (if truthy (save_state_path c) then r\<lparr>trace := trace r @ [Save (st r)]\<rparr> else r)"

definition maybe_checkpoint :: "config \<Rightarrow> run \<Rightarrow> run" where
  "maybe_checkpoint c r =
     (if truthy (save_state_path c) \<and> checkpoint_interval c \<noteq> 0
         \<and> total_rows r mod checkpoint_interval c = 0
      then save_state c r else r)"

text \<open>
  Lines 41-58. \<open>prior\<close> is the content of the checkpoint file: \<open>None\<close> when the file does
  not exist or cannot be read, else the state that an earlier \<open>save_state\<close> wrote.
\<close>

definition init_state :: "config \<Rightarrow> traversal_state option \<Rightarrow> traversal_state" where
  "init_state c prior =
     (let fresh = \<lparr>st_video_id = video_id c, st_order = order c, page_token = None,
                   processed_top_level = {}, current_top_id = None,
                   reply_page_token = None\<rparr>
      in if resume c \<and> truthy (save_state_path c) then
           (case prior of
              None \<Rightarrow> fresh
            | Some p \<Rightarrow> if st_video_id p = video_id c \<and> st_order p = order c then p else fresh)
         else fresh)"

subsection \<open>The loops\<close>

text \<open>
  The three loops over reply items (lines 86-98, 156-167 and 182-193) differ only in the
  entry of \<open>state\<close> they set before saving when \<open>max_total\<close> is reached: none on the resume
  path, \<open>page_token\<close> for inline replies, \<open>reply_page_token\<close> in the reply pagination.
  \<open>upd\<close> is that assignment.
\<close>

fun emit_replies ::
  "config \<Rightarrow> string \<Rightarrow> (traversal_state \<Rightarrow> traversal_state) \<Rightarrow> comment list \<Rightarrow> run
   \<Rightarrow> status \<times> run" where
  "emit_replies c top_id upd [] r = (Continue, r)"
| "emit_replies c top_id upd (x # xs) r =
     (let r1 = maybe_checkpoint c (append_row (mk_row c (cid x) (Some top_id) (snip x)) r)
      in if limit_hit (max_total c) (total_rows r1)
         then (Returned, save_state c (r1\<lparr>st := upd (st r1)\<rparr>))
         else emit_replies c top_id upd xs r1)"

text \<open>
  The reply pagination \<open>while True\<close> with its \<open>try\<close> (lines 77-106 when \<open>resuming\<close>, lines
  173-201 otherwise). One unit of fuel per iteration.
\<close>

fun reply_loop ::
  "config \<Rightarrow> remote \<Rightarrow> bool \<Rightarrow> nat \<Rightarrow> string \<Rightarrow> string option \<Rightarrow> run \<Rightarrow> status \<times> run" where
  "reply_loop c api resuming 0 top_id reply_page r = (OutOfFuel, r)"
| "reply_loop c api resuming (Suc n) top_id reply_page r =
     (let resp = list_replies api (ncalls (trace r)) top_id reply_page;
          r1 = r\<lparr>trace := trace r @ [CallReplies top_id reply_page resp]\<rparr>
      in case resp of
           Inl msg \<Rightarrow>
             if contains ''quotaExceeded'' msg then (Returned, save_state c r1)
             else (Raised msg, r1)
         | Inr page \<Rightarrow>
             (case emit_replies c top_id
                     (if resuming then (\<lambda>s. s) else (\<lambda>s. s\<lparr>reply_page_token := r_next page\<rparr>))
                     (r_items page) r1 of
                (Continue, r2) \<Rightarrow>
                  (let r3 = r2\<lparr>st := (st r2)\<lparr>reply_page_token := r_next page\<rparr>\<rparr>
                   in if truthy (r_next page)
                      then reply_loop c api resuming n top_id (r_next page) r3
                      else (Continue, r3))
              | out \<Rightarrow> out))"

text \<open>
  Lines 107-110 and 202-203: the thread is recorded as processed, and \<open>current_top_id\<close>
  and \<open>reply_page_token\<close> are cleared, before the next \<open>save_state\<close>.
\<close>

definition mark_processed :: "string \<Rightarrow> traversal_state \<Rightarrow> traversal_state" where
  "mark_processed top_id s =
     s\<lparr>processed_top_level := insert top_id (processed_top_level s),
       current_top_id := None, reply_page_token := None\<rparr>"

text \<open>The \<open>for it in items\<close> loop (lines 135-203) over the items of one thread page.\<close>

fun thread_items ::
  "config \<Rightarrow> remote \<Rightarrow> nat \<Rightarrow> thread_page \<Rightarrow> thread_item list \<Rightarrow> run \<Rightarrow> status \<times> run" where
  "thread_items c api n page [] r = (Continue, r)"
| "thread_items c api n page (it # its) r =
     (let top = topLevelComment it; top_id = cid top
      in if top_id \<in> processed_top_level (st r) then thread_items c api n page its r
         else
           (let r1 = maybe_checkpoint c
                       ((append_row (mk_row c top_id None (snip top)) r)
                          \<lparr>fetched_threads := fetched_threads r + 1\<rparr>)
            in if limit_hit (max_top_level c) (fetched_threads r1)
               then (Returned, save_state c (r1\<lparr>st := (st r1)\<lparr>page_token := t_next page\<rparr>\<rparr>))
               else if limit_hit (max_total c) (total_rows r1)
               then (Returned, save_state c (r1\<lparr>st := (st r1)\<lparr>page_token := t_next page\<rparr>\<rparr>))
               else if no_replies c then thread_items c api n page its r1
               else
                 (case emit_replies c top_id (\<lambda>s. s\<lparr>page_token := t_next page\<rparr>)
                         (inline_replies it) r1 of
                    (Continue, r2) \<Rightarrow>
                      if get_or (totalReplyCount it) 0 \<noteq> 0 then
                        (let r3 = save_state c
                                    (r2\<lparr>st := (st r2)\<lparr>current_top_id := Some top_id,
                                                       reply_page_token := None\<rparr>\<rparr>)
                         in case reply_loop c api False n top_id None r3 of
                              (Continue, r4) \<Rightarrow>
                                thread_items c api n page its
                                  (save_state c (r4\<lparr>st := mark_processed top_id (st r4)\<rparr>))
                            | out \<Rightarrow> out)
                      else thread_items c api n page its r2
                  | out \<Rightarrow> out)))"

text \<open>
  The outer \<open>while True\<close> (lines 115-208) with the local variables \<open>page_token\<close> and
  \<open>seen_tokens\<close>. One unit of fuel per iteration, \<open>continue\<close> included.
\<close>

fun thread_loop ::
  "config \<Rightarrow> remote \<Rightarrow> nat \<Rightarrow> string option \<Rightarrow> string set \<Rightarrow> run \<Rightarrow> status \<times> run" where
  "thread_loop c api 0 page_tok seen_tokens r = (OutOfFuel, r)"
| "thread_loop c api (Suc n) page_tok seen_tokens r =
     (let resp = list_threads api (ncalls (trace r)) page_tok;
          r1 = r\<lparr>trace := trace r @ [CallThreads page_tok resp]\<rparr>
      in case resp of
           Inl msg \<Rightarrow>
             if contains ''quotaExceeded'' msg
             then (Returned, save_state c (r1\<lparr>st := (st r1)\<lparr>page_token := page_tok\<rparr>\<rparr>))
             else if truthy page_tok
                     \<and> (contains ''processingFailure'' msg \<or> contains ''invalidPageToken'' msg)
             then thread_loop c api n None seen_tokens r1
             else (Raised msg, r1)
         | Inr page \<Rightarrow>
             (case thread_items c api n page (t_items page) r1 of
                (Continue, r2) \<Rightarrow>
                  (case t_next page of
                     None \<Rightarrow> (Returned, r2)
                   | Some next_tok \<Rightarrow>
                       if next_tok = [] then (Returned, r2)
                       else if next_tok \<in> seen_tokens
                       then thread_loop c api n None seen_tokens r2
                       else thread_loop c api n (Some next_tok)
                              (insert next_tok seen_tokens) r2)
              | out \<Rightarrow> out))"

text \<open>
  \<open>fetch_all_comments\<close> (lines 25-210). \<open>n\<close> is the fuel given to each loop nest.
\<close>

definition fetch_all_comments ::
  "config \<Rightarrow> remote \<Rightarrow> traversal_state option \<Rightarrow> nat \<Rightarrow> status \<times> run" where
  "fetch_all_comments c api prior n =
     (let r = \<lparr>st = init_state c prior, rows = [], total_rows = 0, fetched_threads = 0,
               trace = []\<rparr>
      in if \<not> truthy (api_key c)
         then (Raised ''Please set YT_API_KEY environment variable.'', r)
         else
           (case current_top_id (st r) of
              Some top_id \<Rightarrow>
                if top_id \<noteq> [] \<and> \<not> no_replies c then
                  (case reply_loop c api True n top_id (reply_page_token (st r)) r of
                     (Continue, r1) \<Rightarrow>
                       (let r2 = save_state c (r1\<lparr>st := mark_processed top_id (st r1)\<rparr>)
                        in thread_loop c api n (page_token (st r2)) {} r2)
                   | out \<Rightarrow> out)
                else thread_loop c api n (page_token (st r)) {} r
            | None \<Rightarrow> thread_loop c api n (page_token (st r)) {} r))"

text \<open>
  Two configurations that differ at most in limits which stop at the same values.
\<close>

definition limits_equiv :: "config \<Rightarrow> config \<Rightarrow> bool" where
  "limits_equiv c c' =
     (api_key c = api_key c' \<and> video_id c = video_id c' \<and> order c = order c'
      \<and> no_replies c = no_replies c' \<and> save_state_path c = save_state_path c'
      \<and> resume c = resume c' \<and> checkpoint_interval c = checkpoint_interval c'
      \<and> limit_hit (max_top_level c) = limit_hit (max_top_level c')
      \<and> limit_hit (max_total c) = limit_hit (max_total c'))"

subsection \<open>A small remote service and configuration for concrete runs\<close>

definition demo_snippet :: snippet where
  "demo_snippet = \<lparr>authorDisplayName = Some ''ann'', likeCount = Some 2,
     publishedAt = Some ''t0'', updatedAt = None, textOriginal = Some ''hello''\<rparr>"

definition demo_comment :: "string \<Rightarrow> comment" where
  "demo_comment i = \<lparr>cid = i, snip = demo_snippet\<rparr>"

text \<open>A thread without replies.\<close>

definition demo_thread :: "string \<Rightarrow> thread_item" where
  "demo_thread i = \<lparr>topLevelComment = demo_comment i, totalReplyCount = Some 0,
     inline_replies = []\<rparr>"

definition demo_config :: config where
  "demo_config = \<lparr>api_key = Some ''key'', video_id = ''dQw4w9WgXcQ'', order = ''time'',
     max_top_level = None, no_replies = False, max_total = None,
     save_state_path = Some ''state.json'', resume = False, checkpoint_interval = 500\<rparr>"

text \<open>
  One thread page with the thread \<open>a\<close>, which has one reply \<open>a1\<close>, inline and on its
  single reply page.
\<close>

definition demo_remote :: remote where
  "demo_remote =
     \<lparr>list_threads = (\<lambda>i tok.
        if tok = None
        then Inr \<lparr>t_items = [\<lparr>topLevelComment = demo_comment ''a'', totalReplyCount = Some 1,
                              inline_replies = [demo_comment ''a1'']\<rparr>],
                  t_next = None\<rparr>
        else Inl ''invalidPageToken''),
      list_replies = (\<lambda>i top tok. Inr \<lparr>r_items = [demo_comment ''a1''], r_next = None\<rparr>)\<rparr>"

section \<open>The identifier parser \<open>extract_video_id\<close>\<close>

text \<open>
  Characters are code points below 256. \<open>str.strip()\<close> removes the characters for which
  \<open>str.isspace\<close> holds: in this range the code points 9-13, 28-32, 133 and 160.
\<close>

definition py_space :: "char \<Rightarrow> bool" where
  "py_space ch =
     (let n = (of_char ch :: nat)
      in (9 \<le> n \<and> n \<le> 13) \<or> (28 \<le> n \<and> n \<le> 32) \<or> n = 133 \<or> n = 160)"

text \<open>\<open>s.strip(chars)\<close>, with the set of characters as a predicate.\<close>

definition strip :: "(char \<Rightarrow> bool) \<Rightarrow> string \<Rightarrow> string" where
  "strip P s = rev (dropWhile P (rev (dropWhile P s)))"

text \<open>The character class \<open>[A-Za-z0-9_-]\<close>.\<close>

definition id_char :: "char \<Rightarrow> bool" where
  "id_char ch =
     (let n = (of_char ch :: nat)
      in (65 \<le> n \<and> n \<le> 90) \<or> (97 \<le> n \<and> n \<le> 122) \<or> (48 \<le> n \<and> n \<le> 57)
         \<or> ch = CHR ''_'' \<or> ch = CHR ''-'')"

text \<open>\<open>re.fullmatch(r"[A-Za-z0-9_-]{11}", s)\<close>.\<close>

definition is_video_id :: "string \<Rightarrow> bool" where
  "is_video_id s = (length s = 11 \<and> list_all id_char s)"

text \<open>
  What the function reads of the result of \<open>urlparse\<close>. \<open>urlparse\<close> and \<open>parse_qs\<close> belong
  to the Python standard library, not to the repository: they are parameters of the
  model. Either may raise (\<open>Inl\<close>); the function catches every \<open>Exception\<close>.
\<close>

record parsed_url =
  netloc :: string
  path :: string
  query :: string

record url_lib =
  urlparse :: "string \<Rightarrow> string + parsed_url"
  parse_qs :: "string \<Rightarrow> string + (string \<rightharpoonup> string list)"

text \<open>\<open>u.path.strip("/").split("/")[0]\<close>: the part before the first remaining slash.\<close>

definition first_segment :: "string \<Rightarrow> string" where
  "first_segment p = takeWhile (\<lambda>ch. ch \<noteq> CHR ''/'') (strip (\<lambda>ch. ch = CHR ''/'') p)"

text \<open>\<open>(qs.get("v") or [""])[0]\<close>.\<close>

definition first_v :: "(string \<rightharpoonup> string list) \<Rightarrow> string" where
  "first_v qs = (case qs ''v'' of None \<Rightarrow> [] | Some [] \<Rightarrow> [] | Some (x # _) \<Rightarrow> x)"

text \<open>\<open>(inp or "").strip().strip('"').strip("'")\<close>.\<close>

definition clean_input :: "string \<Rightarrow> string" where
  "clean_input inp =
     strip (\<lambda>ch. ch = CHR 0x27) (strip (\<lambda>ch. ch = CHR 0x22) (strip py_space inp))"

text \<open>Lines 9-23. The empty string is the function's failure value.\<close>

definition extract_video_id :: "url_lib \<Rightarrow> string \<Rightarrow> string" where
  "extract_video_id lib inp =
     (let s = clean_input inp
      in if is_video_id s then s
         else
           (case urlparse lib s of
              Inl e \<Rightarrow> []
            | Inr u \<Rightarrow>
                if contains ''youtu.be'' (netloc u) then
                  (let cand = first_segment (path u)
                   in if is_video_id cand then cand else [])
                else
                  (case parse_qs lib (query u) of
                     Inl e \<Rightarrow> []
                   | Inr qs \<Rightarrow>
                       (let cand = first_v qs
                        in if is_video_id cand then cand else []))))"

datatype parse_failure = InvalidIdentifier

text \<open>
  Lines 225-227 of \<open>main\<close>: an empty result ends the program with \<open>SystemExit\<close>
  ("Could not parse a valid 11-char video ID") before any network call.
\<close>

definition parse_video_arg :: "url_lib \<Rightarrow> string \<Rightarrow> parse_failure + string" where
  "parse_video_arg lib video =
     (let vid = extract_video_id lib video
      in if vid = [] then Inl InvalidIdentifier else Inr vid)"

subsection \<open>A model of \<open>urllib.parse\<close> for concrete inputs\<close>

text \<open>
  The splitting that \<open>urlsplit\<close> and \<open>urlparse\<close> of CPython 3.11 perform, for the three
  components read above: leading control characters and spaces are dropped, tab, CR and LF
  are removed, a scheme is split off at the first colon, the network location follows
  \<open>//\<close> up to the next \<open>/\<close>, \<open>?\<close> or \<open>#\<close>, the fragment is cut at the first \<open>#\<close>, the query
  at the first \<open>?\<close>, and for schemes with parameters the path is cut at the \<open>;\<close> of its
  last segment. \<open>ValueError\<close> is raised for a network location with only one of the two
  brackets, and for one with both brackets whose bracketed host is neither an IPv6 nor an
  IPvFuture address. The third check of \<open>urlsplit\<close>, \<open>_checknetloc\<close>, raises only when the
  NFKC form of a character outside ASCII contains one of \<open>/?#@:\<close>, which no code point
  below 256 does.
\<close>

definition ascii_alpha :: "char \<Rightarrow> bool" where
  "ascii_alpha ch =
     (let n = (of_char ch :: nat) in (65 \<le> n \<and> n \<le> 90) \<or> (97 \<le> n \<and> n \<le> 122))"

definition ascii_digit :: "char \<Rightarrow> bool" where
  "ascii_digit ch = (let n = (of_char ch :: nat) in 48 \<le> n \<and> n \<le> 57)"

definition scheme_char :: "char \<Rightarrow> bool" where
  "scheme_char ch =
     (ascii_alpha ch \<or> ascii_digit ch \<or> ch = CHR ''+'' \<or> ch = CHR ''-'' \<or> ch = CHR ''.'')"

definition ascii_lower :: "char \<Rightarrow> char" where
  "ascii_lower ch =
     (let n = (of_char ch :: nat) in if 65 \<le> n \<and> n \<le> 90 then char_of (n + 32) else ch)"

text \<open>\<open>s.split(sep, 1)\<close> when \<open>sep\<close> occurs in \<open>s\<close>, else \<open>None\<close>.\<close>

definition split_first :: "char \<Rightarrow> string \<Rightarrow> (string \<times> string) option" where
  "split_first sep s =
     (if sep \<in> set s
      then Some (takeWhile (\<lambda>ch. ch \<noteq> sep) s, tl (dropWhile (\<lambda>ch. ch \<noteq> sep) s))
      else None)"

text \<open>\<open>s.split(sep)\<close>, with the current piece accumulated in reverse.\<close>

fun split_all :: "char \<Rightarrow> string \<Rightarrow> string \<Rightarrow> string list" where
  "split_all sep acc [] = [rev acc]"
| "split_all sep acc (ch # s) =
     (if ch = sep then rev acc # split_all sep [] s else split_all sep (ch # acc) s)"

definition hex_val :: "char \<Rightarrow> nat option" where
  "hex_val ch =
     (let n = (of_char ch :: nat)
      in if 48 \<le> n \<and> n \<le> 57 then Some (n - 48)
         else if 65 \<le> n \<and> n \<le> 70 then Some (n - 55)
         else if 97 \<le> n \<and> n \<le> 102 then Some (n - 87)
         else None)"

definition uses_params :: "string list" where
  "uses_params = ['''', ''ftp'', ''hdl'', ''prospero'', ''http'', ''imap'', ''https'',
     ''shttp'', ''rtsp'', ''rtspu'', ''sip'', ''sips'', ''mms'', ''sftp'', ''tel'']"

text \<open>\<open>_splitparams\<close>: the path without the parameters of its last segment.\<close>

definition strip_params :: "string \<Rightarrow> string" where
  "strip_params url =
     (let last_seg = rev (takeWhile (\<lambda>ch. ch \<noteq> CHR ''/'') (rev url));
          before = take (length url - length last_seg) url
      in if CHR '';'' \<in> set last_seg
         then before @ takeWhile (\<lambda>ch. ch \<noteq> CHR '';'') last_seg
         else url)"

text \<open>
  \<open>ipaddress.IPv4Address(s)\<close> does not raise: four octets separated by dots, each of one
  to three ASCII digits without a leading zero and at most 255.
\<close>

definition valid_octet :: "string \<Rightarrow> bool" where
  "valid_octet s =
     (s \<noteq> [] \<and> list_all ascii_digit s \<and> length s \<le> 3
      \<and> (s = ''0'' \<or> hd s \<noteq> CHR ''0'')
      \<and> foldl (\<lambda>n ch. 10 * n + (of_char ch - 48)) (0 :: nat) s \<le> 255)"

definition valid_ipv4 :: "string \<Rightarrow> bool" where
  "valid_ipv4 s =
     (CHR ''/'' \<notin> set s \<and> s \<noteq> []
      \<and> length (split_all CHR ''.'' [] s) = 4
      \<and> list_all valid_octet (split_all CHR ''.'' [] s))"

text \<open>
  \<open>IPv6Address._parse_hextet\<close> does not raise, and \<open>IPv6Address._ip_int_from_string\<close> does
  not: at least three and at most nine parts separated by colons, where a last part with a
  dot is an IPv4 address and counts as two hextets; at most one empty part strictly inside
  (the \<open>::\<close>); with it, an empty first or last part is allowed only next to it, fewer than
  eight other parts remain and they are hextets; without it, exactly eight hextets.
\<close>

definition valid_hextet :: "string \<Rightarrow> bool" where
  "valid_hextet s = (list_all (\<lambda>ch. hex_val ch \<noteq> None) s \<and> length s \<le> 4 \<and> s \<noteq> [])"

definition valid_ipv6_addr :: "string \<Rightarrow> bool" where
  "valid_ipv6_addr s =
     (let parts0 = split_all CHR '':'' [] s;
          v4 = (CHR ''.'' \<in> set (last parts0));
          parts = (if v4 then butlast parts0 @ [''0'', ''0''] else parts0);
          n = length parts;
          skips = filter (\<lambda>i. parts ! i = []) [1 ..< n - 1]
      in s \<noteq> [] \<and> 3 \<le> length parts0
         \<and> (if v4 then valid_ipv4 (last parts0) else True)
         \<and> n \<le> 9 \<and> length skips \<le> 1
         \<and> (case skips of
               [] \<Rightarrow> n = 8 \<and> list_all valid_hextet parts
             | i # _ \<Rightarrow>
                 (let parts_hi = (if hd parts = [] then i - 1 else i);
                      parts_lo = (if last parts = [] then n - i - 2 else n - i - 1)
                  in (if hd parts = [] then parts_hi = 0 else True)
                     \<and> (if last parts = [] then parts_lo = 0 else True)
                     \<and> parts_hi + parts_lo < 8
                     \<and> list_all valid_hextet (take parts_hi parts)
                     \<and> list_all valid_hextet (drop (n - parts_lo) parts))))"

text \<open>\<open>ipaddress.IPv6Address(s)\<close> does not raise: an address and an optional scope id.\<close>

definition valid_ipv6 :: "string \<Rightarrow> bool" where
  "valid_ipv6 s =
     (CHR ''/'' \<notin> set s
      \<and> (case split_first CHR ''%'' s of
            None \<Rightarrow> valid_ipv6_addr s
          | Some (addr, scope_id) \<Rightarrow>
              scope_id \<noteq> [] \<and> CHR ''%'' \<notin> set scope_id \<and> valid_ipv6_addr addr))"

text \<open>
  \<open>_check_bracketed_host\<close> does not raise: a host starting with \<open>v\<close> matches
  \<open>\Av[a-fA-F0-9]+\..+\Z\<close>; any other host is accepted by \<open>ipaddress.ip_address\<close>, which
  tries \<open>IPv4Address\<close> first, and is not an IPv4 address.
\<close>

definition check_bracketed_host :: "string \<Rightarrow> bool" where
  "check_bracketed_host hostname =
     (if take 1 hostname = ''v''
      then (let digits = takeWhile (\<lambda>ch. hex_val ch \<noteq> None) (tl hostname);
                rest = dropWhile (\<lambda>ch. hex_val ch \<noteq> None) (tl hostname)
            in digits \<noteq> [] \<and> take 1 rest = ''.'' \<and> tl rest \<noteq> []
               \<and> CHR 0x0A \<notin> set (tl rest))
      else \<not> valid_ipv4 hostname \<and> valid_ipv6 hostname)"

definition py_urlparse :: "string \<Rightarrow> string + parsed_url" where
  "py_urlparse url0 =
     (let url1 = filter (\<lambda>ch. ch \<noteq> CHR 0x09 \<and> ch \<noteq> CHR 0x0A \<and> ch \<noteq> CHR 0x0D)
                   (dropWhile (\<lambda>ch. (of_char ch :: nat) \<le> 32) url0);
          (scheme, url2) =
            (case split_first CHR '':'' url1 of
               None \<Rightarrow> ([], url1)
             | Some (pre, post) \<Rightarrow>
                 if pre \<noteq> [] \<and> ascii_alpha (hd pre) \<and> list_all scheme_char pre
                 then (map ascii_lower pre, post) else ([], url1));
          delim = (\<lambda>ch. ch = CHR ''/'' \<or> ch = CHR ''?'' \<or> ch = CHR ''#'');
          (nl, url3) =
            (if take 2 url2 = ''//''
             then (takeWhile (\<lambda>ch. \<not> delim ch) (drop 2 url2),
                   dropWhile (\<lambda>ch. \<not> delim ch) (drop 2 url2))
             else ([], url2));
          bracketed_host = takeWhile (\<lambda>ch. ch \<noteq> CHR '']'')
                             (tl (dropWhile (\<lambda>ch. ch \<noteq> CHR ''['') nl))
      in if (CHR ''['' \<in> set nl) \<noteq> (CHR '']'' \<in> set nl) then Inl ''Invalid IPv6 URL''
         else if CHR ''['' \<in> set nl \<and> \<not> check_bracketed_host bracketed_host
         then Inl ''Invalid bracketed host''
         else
           (let url4 = (case split_first CHR ''#'' url3 of None \<Rightarrow> url3 | Some (a, _) \<Rightarrow> a);
                (p, q) = (case split_first CHR ''?'' url4 of None \<Rightarrow> (url4, []) | Some pq \<Rightarrow> pq);
                p' = (if scheme \<in> set uses_params then strip_params p else p)
            in Inr \<lparr>netloc = nl, path = p', query = q\<rparr>))"

text \<open>
  \<open>parse_qs\<close> with its defaults: fields separated by \<open>&\<close>, name and value separated at
  the first \<open>=\<close>, fields without \<open>=\<close> or with an empty value dropped, \<open>+\<close> read as a space
  and \<open>%XX\<close> as the character of that code. (The library decodes the escaped bytes as
  UTF-8, so that escapes from \<open>%80\<close> on give other characters than here, possibly above
  255; in the library as here they are outside ASCII, hence neither part of the name \<open>v\<close>
  nor of a value that \<open>is_video_id\<close> accepts.)
\<close>

fun unquote :: "string \<Rightarrow> string" where
  "unquote (a # b # c # s) =
     (if a = CHR ''%'' then
        (case (hex_val b, hex_val c) of
           (Some h, Some l) \<Rightarrow> char_of (16 * h + l) # unquote s
         | _ \<Rightarrow> a # unquote (b # c # s))
      else a # unquote (b # c # s))"
| "unquote s = s"

definition unquote_plus :: "string \<Rightarrow> string" where
  "unquote_plus s = unquote (map (\<lambda>ch. if ch = CHR ''+'' then CHR '' '' else ch) s)"

fun qs_fields :: "string list \<Rightarrow> (string \<times> string) list" where
  "qs_fields [] = []"
| "qs_fields (f # fs) =
     (case split_first CHR ''='' f of
        None \<Rightarrow> qs_fields fs
      | Some (name, val) \<Rightarrow>
          if val = [] then qs_fields fs
          else (unquote_plus name, unquote_plus val) # qs_fields fs)"

definition py_parse_qs :: "string \<Rightarrow> string + (string \<rightharpoonup> string list)" where
  "py_parse_qs q =
     (let fields = qs_fields (split_all CHR ''&'' [] q)
      in Inr (\<lambda>k. if k \<in> fst ` set fields
                  then Some (map snd (filter (\<lambda>nv. fst nv = k) fields)) else None))"

definition py_urllib :: url_lib where
  "py_urllib = \<lparr>urlparse = py_urlparse, parse_qs = py_parse_qs\<rparr>"

section \<open>Reading the trace of a run\<close>

text \<open>The rows appended to \<open>rows\<close>, in order, and the checkpoints written, in order.\<close>

fun emitted :: "event list \<Rightarrow> row list" where
  "emitted [] = []"
| "emitted (Emit x # es) = x # emitted es"
| "emitted (e # es) = emitted es"

fun saved :: "event list \<Rightarrow> traversal_state list" where
  "saved [] = []"
| "saved (Save s # es) = s # saved es"
| "saved (e # es) = saved es"

text \<open>What \<open>save_state\<close> and \<open>maybe_checkpoint\<close> add to the trace.\<close>

definition final_save :: "config \<Rightarrow> run \<Rightarrow> event list" where
  "final_save c r = (if truthy (save_state_path c) then [Save (st r)] else [])"

definition checkpoint_events :: "config \<Rightarrow> run \<Rightarrow> event list" where
  "checkpoint_events c r =
     (if truthy (save_state_path c) \<and> checkpoint_interval c \<noteq> 0
         \<and> total_rows r mod checkpoint_interval c = 0
      then final_save c r else [])"

text \<open>A remote call that raised an error whose message contains \<open>quotaExceeded\<close>.\<close>

definition quota_event :: "event \<Rightarrow> bool" where
  "quota_event e =
     (case e of
        CallThreads _ (Inl m) \<Rightarrow> contains ''quotaExceeded'' m
      | CallReplies _ _ (Inl m) \<Rightarrow> contains ''quotaExceeded'' m
      | _ \<Rightarrow> False)"

definition quota_free :: "event list \<Rightarrow> bool" where
  "quota_free tr = list_all (\<lambda>e. \<not> quota_event e) tr"

text \<open>
  The run stopped on a quota error: it returned, and its trace ends with the failing
  call followed by the write of the final state (when a checkpoint path is configured).
\<close>

definition quota_stop :: "config \<Rightarrow> status \<Rightarrow> run \<Rightarrow> bool" where
  "quota_stop c s r =
     (s = Returned
      \<and> (\<exists>pre e. trace r = pre @ e # final_save c r \<and> quota_event e \<and> quota_free pre))"

definition quota_post :: "config \<Rightarrow> status \<times> run \<Rightarrow> bool" where
  "quota_post c out =
     (rows (snd out) = emitted (trace (snd out))
      \<and> (quota_free (trace (snd out)) \<or> quota_stop c (fst out) (snd out))
      \<and> (fst out = Continue \<longrightarrow> quota_free (trace (snd out))))"

text \<open>A remote service whose quota is used up from its second call on.\<close>

definition quota_remote :: remote where
  "quota_remote =
     \<lparr>list_threads = (\<lambda>i tok.
        if i = 0
        then Inr \<lparr>t_items = [demo_thread ''a'', demo_thread ''b''], t_next = Some ''P2''\<rparr>
        else Inl ''HttpError 403: quotaExceeded''),
      list_replies = (\<lambda>i top tok. Inl ''HttpError 403: quotaExceeded'')\<rparr>"

section \<open>Shapes of traces\<close>

definition thread_call :: "event \<Rightarrow> bool" where
  "thread_call e = (case e of CallThreads _ _ \<Rightarrow> True | _ \<Rightarrow> False)"

text \<open>Every remote call in the trace is a reply-page request for the thread \<open>tid\<close>.\<close>

definition only_replies_to :: "string \<Rightarrow> event list \<Rightarrow> bool" where
  "only_replies_to tid tr =
     list_all (\<lambda>e. case e of CallReplies t _ _ \<Rightarrow> t = tid | CallThreads _ _ \<Rightarrow> False | _ \<Rightarrow> True) tr"

text \<open>
  The last remote call in the trace is a reply-page request for \<open>tid\<close> that succeeded
  and announced no further page.
\<close>

definition replies_finished :: "string \<Rightarrow> event list \<Rightarrow> bool" where
  "replies_finished tid tr =
     (\<exists>a tok page b. tr = a @ CallReplies tid tok (Inr page) # b \<and> \<not> truthy (r_next page)
        \<and> list_all (\<lambda>e. \<not> is_call e) b)"

text \<open>
  A checkpoint left by a run that was stopped inside the reply pages of thread \<open>a\<close>, and
  a service with two reply pages for \<open>a\<close> and one thread page.
\<close>

definition mid_reply_checkpoint :: traversal_state where
  "mid_reply_checkpoint =
     \<lparr>st_video_id = ''dQw4w9WgXcQ'', st_order = ''time'', page_token = None,
      processed_top_level = {}, current_top_id = Some ''a'',
      reply_page_token = Some ''R2''\<rparr>"

definition paged_remote :: remote where
  "paged_remote =
     \<lparr>list_threads = (\<lambda>i tok.
        Inr \<lparr>t_items = [demo_thread ''a'', demo_thread ''b''], t_next = None\<rparr>),
      list_replies = (\<lambda>i top tok.
        if tok = Some ''R2''
        then Inr \<lparr>r_items = [demo_comment ''a2''], r_next = Some ''R3''\<rparr>
        else Inr \<lparr>r_items = [demo_comment ''a3''], r_next = None\<rparr>)\<rparr>"

text \<open>The page returned by the last thread-list request of a trace, if it succeeded.\<close>

definition last_page :: "event list \<Rightarrow> thread_page option" where
  "last_page tr =
     foldl (\<lambda>acc e. case e of
                       CallThreads _ (Inr page) \<Rightarrow> Some page
                     | CallThreads _ (Inl _) \<Rightarrow> None
                     | _ \<Rightarrow> acc) None tr"

definition only_saves :: "event list \<Rightarrow> bool" where
  "only_saves tr = list_all (\<lambda>e. case e of Save _ \<Rightarrow> True | _ \<Rightarrow> False) tr"

text \<open>
  The run stopped at the \<open>max_top_level\<close> limit \<open>k\<close>: its last row is the top-level row of
  an item of the thread page it was processing; after that row come only the checkpoint
  of \<open>maybe_checkpoint\<close>, if due, and then the \<open>save_state\<close> of the final state; the
  thread is not recorded as processed, and the \<open>page_token\<close> of the final state is the
  \<open>nextPageToken\<close> of that page.
\<close>

definition limit_stop :: "config \<Rightarrow> int \<Rightarrow> run \<Rightarrow> bool" where
  "limit_stop c k r =
     (fetched_threads r = k
      \<and> (\<exists>pre cps page it.
            trace r = pre @ Emit (mk_row c (cid (topLevelComment it)) None
                                   (snip (topLevelComment it))) # cps @ final_save c r
            \<and> only_saves cps
            \<and> last_page pre = Some page
            \<and> it \<in> set (t_items page)
            \<and> cid (topLevelComment it) \<notin> processed_top_level (st r)
            \<and> page_token (st r) = t_next page))"

definition limit_post :: "config \<Rightarrow> int \<Rightarrow> status \<times> run \<Rightarrow> bool" where
  "limit_post c k out =
     ((fetched_threads (snd out) < k \<or> (fst out = Returned \<and> limit_stop c k (snd out)))
      \<and> (fst out = Continue \<longrightarrow> fetched_threads (snd out) < k))"

section \<open>The invariant of persisted traversal states\<close>

text \<open>No thread is recorded as processed while \<open>current_top_id\<close> still names it.\<close>

definition not_done_while_current :: "traversal_state \<Rightarrow> bool" where
  "not_done_while_current s =
     (case current_top_id s of None \<Rightarrow> True | Some t \<Rightarrow> t \<notin> processed_top_level s)"

text \<open>
  The state a checkpoint file holds after the events \<open>tr\<close> of a run that started from
  \<open>st0\<close>: the last state written, or \<open>st0\<close> when nothing was written yet.
\<close>

definition last_saved :: "traversal_state \<Rightarrow> event list \<Rightarrow> traversal_state" where
  "last_saved st0 tr = last (st0 # saved tr)"

text \<open>
  Writing the state \<open>s\<close> after the events \<open>tr\<close> is in order: \<open>s\<close> keeps the invariant, no
  processed id is lost, and if an id is new in \<open>s\<close> then \<open>current_top_id\<close> and
  \<open>reply_page_token\<close> are cleared in \<open>s\<close> and the reply pages of that thread are finished.
\<close>

definition save_ok :: "traversal_state \<Rightarrow> event list \<Rightarrow> traversal_state \<Rightarrow> bool" where
  "save_ok st0 tr s =
     (not_done_while_current s
      \<and> processed_top_level (last_saved st0 tr) \<subseteq> processed_top_level s
      \<and> (processed_top_level s = processed_top_level (last_saved st0 tr)
         \<or> (current_top_id s = None \<and> reply_page_token s = None
            \<and> (\<forall>t \<in> processed_top_level s - processed_top_level (last_saved st0 tr).
                  replies_finished t tr))))"

fun saves_from :: "traversal_state \<Rightarrow> event list \<Rightarrow> event list \<Rightarrow> bool" where
  "saves_from st0 pre [] = True"
| "saves_from st0 pre (e # es) =
     ((case e of Save s \<Rightarrow> save_ok st0 pre s | _ \<Rightarrow> True) \<and> saves_from st0 (pre @ [e]) es)"

definition checkpoint_inv :: "config \<Rightarrow> traversal_state \<Rightarrow> run \<Rightarrow> bool" where
  "checkpoint_inv c st0 r =
     (saves_from st0 [] (trace r)
      \<and> not_done_while_current (st r)
      \<and> (truthy (save_state_path c)
           \<longrightarrow> processed_top_level (st r) = processed_top_level (last_saved st0 (trace r))))"

section \<open>Recovery from pagination faults\<close>

text \<open>
  The errors that the handler of lines 125-132 recovers from: a thread-list request with a
  non-empty page token failed, the message does not contain \<open>quotaExceeded\<close> and contains
  \<open>processingFailure\<close> or \<open>invalidPageToken\<close>.
\<close>

definition recoverable_fault :: "event \<Rightarrow> bool" where
  "recoverable_fault e =
     (case e of
        CallThreads tok (Inl m) \<Rightarrow>
          truthy tok \<and> \<not> contains ''quotaExceeded'' m
          \<and> (contains ''processingFailure'' m \<or> contains ''invalidPageToken'' m)
      | _ \<Rightarrow> False)"

text \<open>
  A monitor that reads a trace: after a recoverable fault the next event has to be the
  retry, a thread-list request from the start; after a retry that failed with a
  non-quota error nothing may follow.
\<close>

datatype retry_mode = Normal | AfterFault | Dead string | Bad

fun retry_step :: "retry_mode \<Rightarrow> event \<Rightarrow> retry_mode" where
  "retry_step Normal e = (if recoverable_fault e then AfterFault else Normal)"
| "retry_step AfterFault (CallThreads None (Inl m)) =
     (if contains ''quotaExceeded'' m then Normal else Dead m)"
| "retry_step AfterFault (CallThreads None (Inr page)) = Normal"
| "retry_step AfterFault e = Bad"
| "retry_step (Dead m) e = Bad"
| "retry_step Bad e = Bad"

definition retry_mode_of :: "event list \<Rightarrow> retry_mode" where
  "retry_mode_of tr = foldl retry_step Normal tr"

definition retry_post :: "status \<times> run \<Rightarrow> bool" where
  "retry_post out =
     (case retry_mode_of (trace (snd out)) of
        Normal \<Rightarrow> True
      | AfterFault \<Rightarrow> fst out = OutOfFuel
      | Dead m \<Rightarrow> fst out = Raised m
      | Bad \<Rightarrow> False)"

text \<open>
  A service whose page tokens go stale twice: the requests with the tokens \<open>A\<close> and \<open>B\<close>
  fail, every request from the start succeeds.
\<close>

definition stale_remote :: remote where
  "stale_remote =
     \<lparr>list_threads = (\<lambda>i tok.
        if tok \<noteq> None then Inl ''HttpError 400: invalidPageToken''
        else Inr \<lparr>t_items = [demo_thread ''a''],
                  t_next = (if i = 0 then Some ''A'' else if i = 2 then Some ''B'' else None)\<rparr>),
      list_replies = (\<lambda>i top tok. Inr \<lparr>r_items = [], r_next = None\<rparr>)\<rparr>"

text \<open>A service on which the retry from the start fails as well.\<close>

definition broken_remote :: remote where
  "broken_remote =
     \<lparr>list_threads = (\<lambda>i tok.
        if i = 0 then Inr \<lparr>t_items = [demo_thread ''a''], t_next = Some ''A''\<rparr>
        else Inl ''HttpError 400: invalidPageToken''),
      list_replies = (\<lambda>i top tok. Inr \<lparr>r_items = [], r_next = None\<rparr>)\<rparr>"

section \<open>A well-behaved upstream\<close>


definition chain_tok :: "nat \<Rightarrow> string option" where
  "chain_tok j = (if j = 0 then None else Some (replicate j CHR ''p''))"

definition tok_index :: "string option \<Rightarrow> nat" where
  "tok_index tok = (case tok of None \<Rightarrow> 0 | Some t \<Rightarrow> length t)"


text \<open>The number of rows with \<open>parent_id = null\<close>.\<close>

definition top_level_count :: "row list \<Rightarrow> nat" where
  "top_level_count rs = length (filter (\<lambda>x. parent_id x = None) rs)"

text \<open>The ids of the threads of a list of thread items.\<close>

definition thread_ids :: "thread_item list \<Rightarrow> string list" where
  "thread_ids its = map (\<lambda>it. cid (topLevelComment it)) its"



section \<open>Properties of the deduplication pass\<close>

lemma dedup_loop_keep_first:
  "dedup_loop rs seen clean = clean @ keep_first (filter (\<lambda>x. comment_id x \<notin> seen) rs)"
proof (induction rs arbitrary: seen clean)
  case Nil
  show ?case by simp
next
  case (Cons r rs)
  have eq: "filter (\<lambda>x. comment_id x \<noteq> comment_id r) (filter (\<lambda>x. comment_id x \<notin> seen) rs)
      = filter (\<lambda>x. comment_id x \<notin> insert (comment_id r) seen) rs"
    by (induction rs) auto
  show ?case using Cons.IH eq by simp
qed

lemma dedup_keep_first: "dedup fetched = keep_first fetched"
  by (simp add: dedup_def dedup_loop_keep_first)

lemma set_keep_first: "set (keep_first rs) \<subseteq> set rs"
  by (induction rs rule: keep_first.induct) auto

lemma ids_keep_first: "comment_id ` set (keep_first rs) = comment_id ` set rs"
  by (induction rs rule: keep_first.induct) auto

lemma distinct_keep_first: "distinct (map comment_id (keep_first rs))"
proof (induction rs rule: keep_first.induct)
  case 1
  show ?case by simp
next
  case (2 r rs)
  have "comment_id r \<notin> comment_id ` set (keep_first (filter (\<lambda>x. comment_id x \<noteq> comment_id r) rs))"
    using set_keep_first[of "filter (\<lambda>x. comment_id x \<noteq> comment_id r) rs"] by auto
  then show ?case using 2 by simp
qed

lemma subseq_keep_first: "subseq (keep_first rs) rs"
proof (induction rs rule: keep_first.induct)
  case 1
  show ?case by simp
next
  case (2 r rs)
  have "subseq (filter (\<lambda>x. comment_id x \<noteq> comment_id r) rs) rs" by simp
  with 2 have "subseq (keep_first (filter (\<lambda>x. comment_id x \<noteq> comment_id r) rs)) rs"
    by (rule subseq_order.order_trans)
  then show ?case by simp
qed

lemma find_filter_weaker:
  "(\<And>y. P y \<Longrightarrow> Q y) \<Longrightarrow> find P (filter Q xs) = find P xs"
  by (induction xs) auto

lemma find_keep_first:
  "x \<in> set (keep_first rs) \<Longrightarrow> find (\<lambda>y. comment_id y = comment_id x) rs = Some x"
proof (induction rs rule: keep_first.induct)
  case 1
  then show ?case by simp
next
  case (2 r rs)
  let ?rest = "filter (\<lambda>y. comment_id y \<noteq> comment_id r) rs"
  show ?case
  proof (cases "x = r")
    case True
    then show ?thesis by simp
  next
    case False
    then have mem: "x \<in> set (keep_first ?rest)"
      using 2 by simp
    then have ne: "comment_id x \<noteq> comment_id r"
      using set_keep_first by fastforce
    from 2 mem have "find (\<lambda>y. comment_id y = comment_id x) ?rest = Some x"
      by simp
    moreover have "find (\<lambda>y. comment_id y = comment_id x) ?rest
        = find (\<lambda>y. comment_id y = comment_id x) rs"
      by (rule find_filter_weaker) (use ne in auto)
    ultimately show ?thesis using ne by auto
  qed
qed

text \<open>
  C1. The deduplication pass of \<open>main\<close> keeps, for every \<open>comment_id\<close>, exactly the first
  row that bears it and drops every later one: the result is the specification's
  \<open>keep_first\<close>; no two kept fetched share a \<open>comment_id\<close>; the kept fetched stand in their
  first-seen order (a subsequence of the input); every \<open>comment_id\<close> of the input
  survives; and each kept row is the first row of the input with its \<open>comment_id\<close>.
\<close>

theorem dedup_first_seen:
  "dedup fetched = keep_first fetched
   \<and> distinct (map comment_id (dedup fetched))
   \<and> subseq (dedup fetched) fetched
   \<and> comment_id ` set (dedup fetched) = comment_id ` set fetched
   \<and> (\<forall>x \<in> set (dedup fetched). find (\<lambda>y. comment_id y = comment_id x) fetched = Some x)"
  by (simp add: dedup_keep_first distinct_keep_first subseq_keep_first ids_keep_first
      find_keep_first)

theorem dedup_first_seen_witness:
  "dedup
     [\<lparr>row_video_id = ''v'', comment_id = ''a'', parent_id = None, author = ''x'',
        like_count = 1, published_at = ''t1'', updated_at = ''t1'', text_of = ''first''\<rparr>,
      \<lparr>row_video_id = ''v'', comment_id = ''b'', parent_id = Some ''a'', author = ''y'',
        like_count = 0, published_at = ''t2'', updated_at = ''t2'', text_of = ''reply''\<rparr>,
      \<lparr>row_video_id = ''v'', comment_id = ''a'', parent_id = None, author = ''x'',
        like_count = 5, published_at = ''t1'', updated_at = ''t3'', text_of = ''again''\<rparr>]
   = [\<lparr>row_video_id = ''v'', comment_id = ''a'', parent_id = None, author = ''x'',
        like_count = 1, published_at = ''t1'', updated_at = ''t1'', text_of = ''first''\<rparr>,
      \<lparr>row_video_id = ''v'', comment_id = ''b'', parent_id = Some ''a'', author = ''y'',
        like_count = 0, published_at = ''t2'', updated_at = ''t2'', text_of = ''reply''\<rparr>]
   \<and> find (\<lambda>y. comment_id y = ''a'')
     [\<lparr>row_video_id = ''v'', comment_id = ''a'', parent_id = None, author = ''x'',
        like_count = 1, published_at = ''t1'', updated_at = ''t1'', text_of = ''first''\<rparr>,
      \<lparr>row_video_id = ''v'', comment_id = ''b'', parent_id = Some ''a'', author = ''y'',
        like_count = 0, published_at = ''t2'', updated_at = ''t2'', text_of = ''reply''\<rparr>,
      \<lparr>row_video_id = ''v'', comment_id = ''a'', parent_id = None, author = ''x'',
        like_count = 5, published_at = ''t1'', updated_at = ''t3'', text_of = ''again''\<rparr>]
   = Some \<lparr>row_video_id = ''v'', comment_id = ''a'', parent_id = None, author = ''x'',
        like_count = 1, published_at = ''t1'', updated_at = ''t1'', text_of = ''first''\<rparr>"
  using dedup_first_seen [of
     "[\<lparr>row_video_id = ''v'', comment_id = ''a'', parent_id = None, author = ''x'',
        like_count = 1, published_at = ''t1'', updated_at = ''t1'', text_of = ''first''\<rparr>,
      \<lparr>row_video_id = ''v'', comment_id = ''b'', parent_id = Some ''a'', author = ''y'',
        like_count = 0, published_at = ''t2'', updated_at = ''t2'', text_of = ''reply''\<rparr>,
      \<lparr>row_video_id = ''v'', comment_id = ''a'', parent_id = None, author = ''x'',
        like_count = 5, published_at = ''t1'', updated_at = ''t3'', text_of = ''again''\<rparr>]"]
  by (simp add: dedup_def)

section \<open>The compact relabelling at labels that collide with \<open>next_id\<close>\<close>

text \<open>
  C8. The claim says that every noise row (label \<open>-1\<close>) becomes a singleton cluster with
  its own compact id, after all multi-member clusters. The code stores a noise row under
  the key \<open>next_id\<close> (1, 2, ...) in the same dictionary that holds the clusters under
  their raw labels (0, 1, ...), so the keys collide. For the labels \<open>[-1,0,0,0,1,1,1]\<close> the
  noise row 0 is stored under key 1 and the rows of cluster 1 are appended to it: row 0
  receives the compact id 1 together with rows 4, 5, 6, in the largest cluster. For the
  labels \<open>[0,0,0,1,1,1,-1]\<close> the noise row overwrites cluster 1, and the final lookup of
  row 3 raises \<open>KeyError\<close>.
\<close>

theorem compact_relabel_noise_collides:
  "compact_relabel [- 1, 0, 0, 0, 1, 1, 1] = Inr [1, 2, 2, 2, 1, 1, 1]
   \<and> compact_relabel [0, 0, 0, 1, 1, 1, - 1] = Inl (KeyError 3)"
  by (simp add: compact_relabel_def ordered_groups_def upt_rec)

section \<open>Limits of zero\<close>

lemma limits_equiv_basic:
  assumes "limits_equiv c c'"
  shows "save_state c = save_state c'" "maybe_checkpoint c = maybe_checkpoint c'"
    "mk_row c = mk_row c'"
  using assms
  by (auto simp: limits_equiv_def save_state_def maybe_checkpoint_def mk_row_def fun_eq_iff)

lemma limits_equiv_emit_replies:
  assumes "limits_equiv c c'"
  shows "emit_replies c top_id upd xs r = emit_replies c' top_id upd xs r"
proof (induction xs arbitrary: r)
  case Nil
  show ?case by simp
next
  case (Cons x xs)
  have "limit_hit (max_total c) = limit_hit (max_total c')"
    using assms by (simp add: limits_equiv_def)
  then show ?case using Cons limits_equiv_basic[OF assms] by (simp add: Let_def)
qed

lemma limits_equiv_reply_loop:
  assumes "limits_equiv c c'"
  shows "reply_loop c api resuming n top_id tok r = reply_loop c' api resuming n top_id tok r"
proof (induction n arbitrary: tok r)
  case 0
  show ?case by simp
next
  case (Suc n)
  show ?case using Suc limits_equiv_basic[OF assms] limits_equiv_emit_replies[OF assms]
    by (simp add: Let_def cong: if_cong sum.case_cong prod.case_cong status.case_cong)
qed

lemma limits_equiv_thread_items:
  assumes "limits_equiv c c'"
  shows "thread_items c api n page its r = thread_items c' api n page its r"
proof (induction its arbitrary: r)
  case Nil
  show ?case by simp
next
  case (Cons it its)
  have l: "limit_hit (max_total c) = limit_hit (max_total c')"
    "limit_hit (max_top_level c) = limit_hit (max_top_level c')"
    "no_replies c = no_replies c'"
    using assms by (simp_all add: limits_equiv_def)
  show ?case
    using Cons l limits_equiv_basic[OF assms] limits_equiv_emit_replies[OF assms]
      limits_equiv_reply_loop[OF assms]
    by (simp add: Let_def cong: if_cong sum.case_cong prod.case_cong status.case_cong)
qed

lemma limits_equiv_thread_loop:
  assumes "limits_equiv c c'"
  shows "thread_loop c api n tok seen r = thread_loop c' api n tok seen r"
proof (induction n arbitrary: tok seen r)
  case 0
  show ?case by simp
next
  case (Suc n)
  show ?case using Suc limits_equiv_basic[OF assms] limits_equiv_thread_items[OF assms]
    by (simp add: Let_def
        cong: if_cong sum.case_cong prod.case_cong status.case_cong option.case_cong)
qed

lemma limits_equiv_fetch:
  assumes "limits_equiv c c'"
  shows "fetch_all_comments c api prior n = fetch_all_comments c' api prior n"
proof -
  have i: "init_state c prior = init_state c' prior" "api_key c = api_key c'"
    "no_replies c = no_replies c'"
    using assms
    by (auto simp: limits_equiv_def init_state_def Let_def split: option.splits)
  show ?thesis unfolding fetch_all_comments_def i
    using limits_equiv_basic[OF assms] limits_equiv_thread_loop[OF assms]
      limits_equiv_reply_loop[OF assms]
    by (simp add: Let_def
        cong: if_cong sum.case_cong prod.case_cong status.case_cong option.case_cong)
qed

text \<open>
  C10. A run called with \<open>max_top_level = 0\<close> is the run with no \<open>max_top_level\<close>, and a
  run called with \<open>max_total = 0\<close> is the run with no \<open>max_total\<close>: same status, same
  rows, same state, same remote calls and checkpoint writes, for every remote service,
  checkpoint file and fuel. The limit of zero is disabled, it does not stop the run after
  zero rows.
\<close>

theorem zero_limit_is_no_limit:
  "fetch_all_comments (c\<lparr>max_top_level := Some 0\<rparr>) api prior n
     = fetch_all_comments (c\<lparr>max_top_level := None\<rparr>) api prior n
   \<and> fetch_all_comments (c\<lparr>max_total := Some 0\<rparr>) api prior n
     = fetch_all_comments (c\<lparr>max_total := None\<rparr>) api prior n"
proof -
  have "limit_hit (Some 0) = limit_hit None" by (simp add: fun_eq_iff)
  then have "limits_equiv (c\<lparr>max_top_level := Some 0\<rparr>) (c\<lparr>max_top_level := None\<rparr>)"
    "limits_equiv (c\<lparr>max_total := Some 0\<rparr>) (c\<lparr>max_total := None\<rparr>)"
    by (simp_all add: limits_equiv_def)
  then show ?thesis using limits_equiv_fetch by blast
qed

text \<open>With \<open>max_top_level = 0\<close> the demo run returns all three rows it can fetch.\<close>

theorem zero_limit_is_no_limit_witness:
  "fetch_all_comments (demo_config\<lparr>max_top_level := Some 0\<rparr>) demo_remote None 3
     = fetch_all_comments (demo_config\<lparr>max_top_level := None\<rparr>) demo_remote None 3
   \<and> fst (fetch_all_comments (demo_config\<lparr>max_top_level := Some 0\<rparr>) demo_remote None 3)
     = Returned
   \<and> map comment_id
       (rows (snd (fetch_all_comments (demo_config\<lparr>max_top_level := Some 0\<rparr>) demo_remote None 3)))
     = [''a'', ''a1'', ''a1'']"
proof -
  have "fst (fetch_all_comments (demo_config\<lparr>max_top_level := Some 0\<rparr>) demo_remote None 3)
     = Returned"
    by code_simp
  moreover have "map comment_id
       (rows (snd (fetch_all_comments (demo_config\<lparr>max_top_level := Some 0\<rparr>) demo_remote None 3)))
     = [''a'', ''a1'', ''a1'']"
    by code_simp
  ultimately show ?thesis
    using zero_limit_is_no_limit [of demo_config demo_remote None 3] by simp
qed

section \<open>Properties of the identifier parser\<close>

lemma char_eq_code: "(ch = c) = ((of_char ch :: nat) = of_char c)"
  by simp

lemma id_char_iff:
  "id_char ch
     = (ch \<in> set ''ABCDEFGHIJKLMNOPQRSTUVWXYZabcdefghijklmnopqrstuvwxyz0123456789_-'')"
proof -
  obtain n :: nat where n: "n = of_char ch" by simp
  have "(ch \<in> set ''ABCDEFGHIJKLMNOPQRSTUVWXYZabcdefghijklmnopqrstuvwxyz0123456789_-'')
      = (n \<in> set ([65 ..< 91] @ [97 ..< 123] @ [48 ..< 58] @ [95, 45]))"
    by (simp add: char_eq_code [of ch] n)
  also have "\<dots> = ((65 \<le> n \<and> n \<le> 90) \<or> (97 \<le> n \<and> n \<le> 122) \<or> (48 \<le> n \<and> n \<le> 57)
       \<or> n = 95 \<or> n = 45)"
    unfolding set_append set_upt by auto
  also have "\<dots> = id_char ch"
    unfolding id_char_def Let_def n by (simp add: char_eq_code [of ch])
  finally show ?thesis by simp
qed

lemma is_video_id_iff:
  "is_video_id s
     = (length s = 11
        \<and> set s \<subseteq> set ''ABCDEFGHIJKLMNOPQRSTUVWXYZabcdefghijklmnopqrstuvwxyz0123456789_-'')"
  unfolding is_video_id_def list_all_iff using id_char_iff by blast

lemma contains_iff: "contains needle hay = (\<exists>a b. hay = a @ needle @ b)"
proof -
  have "contains needle hay = sublist needle hay"
    by (induction hay) (simp_all add: sublist_Cons_right)
  then show ?thesis by (simp add: sublist_def)
qed

lemma dropWhile_all: "list_all P a \<Longrightarrow> dropWhile P (a @ r) = dropWhile P r"
  by (induction a) simp_all

lemma strip_core:
  assumes "list_all P a" "list_all P b" "m = [] \<or> \<not> P (hd m) \<and> \<not> P (last m)"
  shows "strip P (a @ m @ b) = m"
proof (cases "m = []")
  case True
  have "\<forall>x \<in> set (a @ b). P x" using assms(1,2) by (auto simp: list_all_iff)
  then have "dropWhile P (a @ b) = []" by (rule iffD2 [OF dropWhile_eq_Nil_conv])
  then have "rev (dropWhile P (rev (dropWhile P (a @ b)))) = []"
    by (simp only: rev.simps dropWhile.simps)
  then show ?thesis unfolding strip_def True by (simp only: append_Nil)
next
  case False
  then have h: "\<not> P (hd m)" "\<not> P (last m)" using assms(3) by auto
  have "dropWhile P (a @ m @ b) = m @ b"
    unfolding dropWhile_all [OF assms(1)] using False h(1) by (cases m) simp_all
  moreover have "list_all P (rev b)" using assms(2) by (simp add: list_all_iff)
  then have "dropWhile P (rev b @ rev m) = rev m"
    unfolding dropWhile_all [OF \<open>list_all P (rev b)\<close>] using False h(2)
    by (cases m rule: rev_cases) simp_all
  ultimately show ?thesis by (simp add: strip_def)
qed

lemma first_segment_spec:
  assumes "CHR ''/'' \<notin> set seg" and "rest = [] \<or> seg \<noteq> [] \<and> hd rest = CHR ''/''"
  shows "first_segment (replicate m CHR ''/'' @ seg @ rest) = seg"
proof (cases "seg = []")
  case True
  then have "rest = []" using assms(2) by simp
  have "strip (\<lambda>ch. ch = CHR ''/'') (replicate m CHR ''/'' @ [] @ []) = []"
    by (rule strip_core) (simp_all add: list_all_iff)
  then show ?thesis using True \<open>rest = []\<close> by (simp add: first_segment_def)
next
  case False
  let ?P = "\<lambda>ch. ch = CHR ''/''"
  have hd: "\<not> ?P (hd seg)" and lst: "\<not> ?P (last seg)"
    using False assms(1) by (auto dest: hd_in_set last_in_set)
  have "list_all ?P (replicate m CHR ''/'')" by (simp add: list_all_iff)
  then have d: "dropWhile ?P (replicate m CHR ''/'' @ seg @ rest) = seg @ rest"
    unfolding dropWhile_all [OF \<open>list_all ?P (replicate m CHR ''/'')\<close>]
    using False hd by (cases seg) simp_all
  have "rev (dropWhile ?P (rev rest @ rev seg)) = seg @ rev (dropWhile ?P (rev rest))"
  proof (cases "\<forall>x \<in> set (rev rest). ?P x")
    case True
    then have "list_all ?P (rev rest)" by (simp add: list_all_iff)
    then have "dropWhile ?P (rev rest @ rev seg) = rev seg"
      unfolding dropWhile_all [OF \<open>list_all ?P (rev rest)\<close>]
      using False lst by (cases seg rule: rev_cases) simp_all
    moreover have "dropWhile ?P (rev rest) = []" using True by simp
    ultimately show ?thesis by simp
  next
    case False
    then have "dropWhile ?P (rev rest @ rev seg) = dropWhile ?P (rev rest) @ rev seg"
      by auto
    then show ?thesis by simp
  qed
  then have s: "strip ?P (replicate m CHR ''/'' @ seg @ rest)
      = seg @ rev (dropWhile ?P (rev rest))"
    by (simp add: strip_def d)
  obtain j where "dropWhile ?P (rev rest) = drop j (rev rest)"
    using dropWhile_eq_drop by blast
  then have t: "rev (dropWhile ?P (rev rest)) = take (length rest - j) rest"
    by (simp add: rev_drop)
  have "takeWhile (\<lambda>ch. ch \<noteq> CHR ''/'') (seg @ take (length rest - j) rest) = seg"
  proof (cases "take (length rest - j) rest")
    case Nil
    have "takeWhile (\<lambda>ch. ch \<noteq> CHR ''/'') seg = seg"
      using assms(1) by auto
    then show ?thesis unfolding Nil by simp
  next
    case (Cons c cs)
    then have "rest \<noteq> []" by auto
    then have "hd rest = CHR ''/''" using assms(2) by simp
    moreover have "hd (take (length rest - j) rest) = hd rest"
      using Cons by (cases rest; cases "length rest - j") simp_all
    ultimately have "c = CHR ''/''" using Cons by simp
    moreover have "\<And>x. x \<in> set seg \<Longrightarrow> x \<noteq> CHR ''/''" using assms(1) by auto
    ultimately show ?thesis unfolding Cons by simp
  qed
  then show ?thesis by (simp add: first_segment_def s t)
qed

lemma first_v_spec:
  "qs ''v'' = Some (x # xs) \<Longrightarrow> first_v qs = x"
  "qs ''v'' = None \<or> qs ''v'' = Some [] \<Longrightarrow> first_v qs = []"
  by (auto simp: first_v_def)

lemma clean_input_spec:
  assumes "list_all py_space w1" "list_all py_space w2"
    and "list_all (\<lambda>ch. ch = CHR 0x22) d1" "list_all (\<lambda>ch. ch = CHR 0x22) d2"
    and "list_all (\<lambda>ch. ch = CHR 0x27) q1" "list_all (\<lambda>ch. ch = CHR 0x27) q2"
    and "d1 @ q1 @ core @ q2 @ d2 = []
         \<or> \<not> py_space (hd (d1 @ q1 @ core @ q2 @ d2)) \<and> \<not> py_space (last (d1 @ q1 @ core @ q2 @ d2))"
    and "q1 @ core @ q2 = []
         \<or> hd (q1 @ core @ q2) \<noteq> CHR 0x22 \<and> last (q1 @ core @ q2) \<noteq> CHR 0x22"
    and "core = [] \<or> hd core \<noteq> CHR 0x27 \<and> last core \<noteq> CHR 0x27"
  shows "clean_input (w1 @ d1 @ q1 @ core @ q2 @ d2 @ w2) = core"
proof -
  have "strip py_space (w1 @ (d1 @ q1 @ core @ q2 @ d2) @ w2) = d1 @ q1 @ core @ q2 @ d2"
    by (rule strip_core [OF assms(1,2,7)])
  moreover have "strip (\<lambda>ch. ch = CHR 0x22) (d1 @ (q1 @ core @ q2) @ d2) = q1 @ core @ q2"
    by (rule strip_core [OF assms(3,4)]) (use assms(8) in simp)
  moreover have "strip (\<lambda>ch. ch = CHR 0x27) (q1 @ core @ q2) = core"
    by (rule strip_core [OF assms(5,6)]) (use assms(9) in simp)
  ultimately show ?thesis by (simp add: clean_input_def)
qed

lemma id_char_plain:
  assumes "id_char c"
  shows "c \<noteq> CHR ''/''" "c \<noteq> CHR ''?''" "c \<noteq> CHR ''#''" "c \<noteq> CHR '':''" "c \<noteq> CHR '';''"
    "c \<noteq> CHR ''=''" "c \<noteq> CHR ''&''" "c \<noteq> CHR ''%''" "c \<noteq> CHR ''+''"
    "c \<noteq> CHR 0x22" "c \<noteq> CHR 0x27" "c \<noteq> CHR 0x09" "c \<noteq> CHR 0x0A" "c \<noteq> CHR 0x0D"
    "\<not> py_space c"
  using assms unfolding id_char_def py_space_def Let_def
  by (auto simp: char_eq_code [of c])

lemma plain_notin: "list_all id_char v \<Longrightarrow> \<not> id_char c \<Longrightarrow> c \<notin> set v"
  by (auto simp: list_all_iff)

lemma plain_takeWhile:
  "list_all id_char v \<Longrightarrow> \<not> id_char c
   \<Longrightarrow> takeWhile (\<lambda>ch. ch \<noteq> c) (v @ r) = v @ takeWhile (\<lambda>ch. ch \<noteq> c) r"
  by (induction v) auto

lemma plain_dropWhile:
  "list_all id_char v \<Longrightarrow> \<not> id_char c
   \<Longrightarrow> dropWhile (\<lambda>ch. ch \<noteq> c) (v @ r) = dropWhile (\<lambda>ch. ch \<noteq> c) r"
  by (induction v) auto

lemma plain_filter:
  "list_all id_char v
   \<Longrightarrow> filter (\<lambda>ch. ch \<noteq> CHR 0x09 \<and> ch \<noteq> CHR 0x0A \<and> ch \<noteq> CHR 0x0D) v = v"
  by (induction v) (auto dest: id_char_plain)

lemma not_id_char:
  "\<not> id_char CHR ''/''" "\<not> id_char CHR ''?''" "\<not> id_char CHR ''#''" "\<not> id_char CHR '':''"
  "\<not> id_char CHR '';''" "\<not> id_char CHR ''=''" "\<not> id_char CHR ''&''" "\<not> id_char CHR ''%''"
  "\<not> id_char CHR ''+''"
  by (simp_all add: id_char_def)

lemma urlparse_short_link:
  assumes "list_all id_char vid"
  shows "py_urlparse (''https://youtu.be/'' @ vid @ ''?t=30'')
       = Inr \<lparr>netloc = ''youtu.be'', path = CHR ''/'' # vid, query = ''t=30''\<rparr>"
proof -
  have v: "list_all id_char (rev vid)" using assms by simp
  have t: "takeWhile (\<lambda>ch. ch \<noteq> CHR ''/'') (rev vid @ ''/'') = rev vid"
    using plain_takeWhile [OF v not_id_char(1), of "''/''"] by simp
  show ?thesis
  unfolding py_urlparse_def Let_def split_first_def
  by (simp add: plain_filter [OF assms] plain_notin [OF assms] not_id_char
      plain_takeWhile [OF assms] plain_dropWhile [OF assms] t
      ascii_alpha_def ascii_digit_def scheme_char_def ascii_lower_def uses_params_def
      strip_params_def)
qed

lemma path_decomposition:
  "\<exists>m seg rest. p = replicate m CHR ''/'' @ seg @ rest \<and> CHR ''/'' \<notin> set seg
     \<and> (rest = [] \<or> seg \<noteq> [] \<and> hd rest = CHR ''/'')"
proof -
  define a where "a = takeWhile (\<lambda>ch. ch = CHR ''/'') p"
  define q where "q = dropWhile (\<lambda>ch. ch = CHR ''/'') p"
  define seg where "seg = takeWhile (\<lambda>ch. ch \<noteq> CHR ''/'') q"
  define rest where "rest = dropWhile (\<lambda>ch. ch \<noteq> CHR ''/'') q"
  have "\<forall>x \<in> set a. x = CHR ''/''" unfolding a_def by (auto dest: set_takeWhileD)
  then have a: "replicate (length a) CHR ''/'' = a"
    by (induction a) simp_all
  have "p = a @ q" unfolding a_def q_def by simp
  moreover have "q = seg @ rest" unfolding seg_def rest_def by simp
  ultimately have p: "p = replicate (length a) CHR ''/'' @ seg @ rest"
    unfolding a by simp
  have s: "CHR ''/'' \<notin> set seg" unfolding seg_def by (auto dest: set_takeWhileD)
  have r: "rest = [] \<or> seg \<noteq> [] \<and> hd rest = CHR ''/''"
  proof (cases "rest = []")
    case False
    then have qn: "q \<noteq> []" unfolding rest_def by auto
    then have "hd q \<noteq> CHR ''/''"
      unfolding q_def using hd_dropWhile [of "\<lambda>ch. ch = CHR ''/''" p] by blast
    then have "seg \<noteq> []" unfolding seg_def using qn by (cases q) simp_all
    moreover have "hd rest = CHR ''/''"
      using False hd_dropWhile [of "\<lambda>ch. ch \<noteq> CHR ''/''" q] unfolding rest_def by blast
    ultimately show ?thesis by simp
  next
    case True
    then show ?thesis by simp
  qed
  from p s r show ?thesis by blast
qed

lemma split_all_append:
  "sep \<notin> set v \<Longrightarrow> split_all sep acc (v @ r) = split_all sep (rev v @ acc) r"
  by (induction v arbitrary: acc) auto

lemma unquote_plain: "CHR ''%'' \<notin> set s \<Longrightarrow> unquote s = s"
  by (induction s rule: unquote.induct) auto

lemma unquote_plus_plain: "list_all id_char v \<Longrightarrow> unquote_plus v = v"
proof -
  assume a: "list_all id_char v"
  then have "map (\<lambda>ch. if ch = CHR ''+'' then CHR '' '' else ch) v = v"
    by (induction v) (auto dest: id_char_plain)
  then show ?thesis
    using unquote_plain [OF plain_notin [OF a not_id_char(8)]] by (simp add: unquote_plus_def)
qed

lemma urlparse_watch:
  assumes "list_all id_char vid"
  shows "py_urlparse (''https://www.youtube.com/watch?v='' @ vid)
       = Inr \<lparr>netloc = ''www.youtube.com'', path = ''/watch'', query = ''v='' @ vid\<rparr>"
  unfolding py_urlparse_def Let_def split_first_def
  by (simp add: plain_filter [OF assms] plain_notin [OF assms] not_id_char
      plain_takeWhile [OF assms] plain_dropWhile [OF assms]
      ascii_alpha_def ascii_digit_def scheme_char_def ascii_lower_def uses_params_def
      strip_params_def)

lemma urlparse_short_watch:
  assumes "list_all id_char vid"
  shows "py_urlparse (''https://youtu.be/watch?v='' @ vid)
       = Inr \<lparr>netloc = ''youtu.be'', path = ''/watch'', query = ''v='' @ vid\<rparr>"
  unfolding py_urlparse_def Let_def split_first_def
  by (simp add: plain_filter [OF assms] plain_notin [OF assms] not_id_char
      plain_takeWhile [OF assms] plain_dropWhile [OF assms]
      ascii_alpha_def ascii_digit_def scheme_char_def ascii_lower_def uses_params_def
      strip_params_def)

lemma parse_qs_v:
  assumes "list_all id_char vid" and "vid \<noteq> []"
  shows "\<exists>qs. py_parse_qs (''v='' @ vid) = Inr qs \<and> qs ''v'' = Some [vid]"
proof -
  have "split_all CHR ''&'' [] (''v='' @ vid) = [''v='' @ vid]"
    using split_all_append [OF plain_notin [OF assms(1) not_id_char(7)], of "''=v''" "[]"]
    by simp
  moreover have "split_first CHR ''='' (''v='' @ vid) = Some (''v'', vid)"
    by (simp add: split_first_def)
  moreover have "unquote_plus ''v'' = ''v''" by (simp add: unquote_plus_def)
  ultimately show ?thesis
    using assms(2) unquote_plus_plain [OF assms(1)] by (simp add: py_parse_qs_def)
qed

lemma clean_input_same:
  assumes "s \<noteq> []" and "\<not> py_space (hd s)" "\<not> py_space (last s)"
    and "hd s \<noteq> CHR 0x22" "last s \<noteq> CHR 0x22" "hd s \<noteq> CHR 0x27" "last s \<noteq> CHR 0x27"
  shows "clean_input s = s"
  using clean_input_spec [of "[]" "[]" "[]" "[]" "[]" "[]" s] assms by simp

lemma extract_family:
  assumes "is_video_id vid"
  shows "extract_video_id py_urllib vid = vid"
    and "extract_video_id py_urllib (''https://youtu.be/'' @ vid @ ''?t=30'') = vid"
    and "extract_video_id py_urllib (''https://www.youtube.com/watch?v='' @ vid) = vid"
    and "extract_video_id py_urllib (''https://youtu.be/watch?v='' @ vid) = []"
proof -
  have v: "list_all id_char vid" and l: "length vid = 11"
    using assms by (simp_all add: is_video_id_def)
  then have ne: "vid \<noteq> []" by auto
  have hd: "id_char (hd vid)" and lst: "id_char (last vid)"
    using v ne by (auto simp: list_all_iff)
  have "clean_input vid = vid"
    using clean_input_same [OF ne] id_char_plain [OF hd] id_char_plain [OF lst] by simp
  then show "extract_video_id py_urllib vid = vid"
    using assms by (simp add: extract_video_id_def)
  have c1: "clean_input (''https://youtu.be/'' @ vid @ ''?t=30'')
      = ''https://youtu.be/'' @ vid @ ''?t=30''"
    by (rule clean_input_same) (simp_all add: py_space_def)
  have "first_segment (replicate 1 CHR ''/'' @ vid @ []) = vid"
    by (rule first_segment_spec) (simp_all add: plain_notin [OF v not_id_char(1)])
  then have f1: "first_segment (CHR ''/'' # vid) = vid" by simp
  show "extract_video_id py_urllib (''https://youtu.be/'' @ vid @ ''?t=30'') = vid"
    unfolding extract_video_id_def c1 Let_def
    using assms l f1 urlparse_short_link [OF v] by (simp add: py_urllib_def is_video_id_def)
  have c2: "clean_input (''https://www.youtube.com/watch?v='' @ vid)
      = ''https://www.youtube.com/watch?v='' @ vid"
    using id_char_plain [OF lst] ne by (intro clean_input_same) (simp_all add: py_space_def)
  obtain qs where qs: "py_parse_qs (''v='' @ vid) = Inr qs" "qs ''v'' = Some [vid]"
    using parse_qs_v [OF v ne] by blast
  show "extract_video_id py_urllib (''https://www.youtube.com/watch?v='' @ vid) = vid"
    unfolding extract_video_id_def c2 Let_def
    using assms l qs urlparse_watch [OF v]
    by (simp add: py_urllib_def is_video_id_def first_v_def)
  have c3: "clean_input (''https://youtu.be/watch?v='' @ vid) = ''https://youtu.be/watch?v='' @ vid"
    using id_char_plain [OF lst] ne by (intro clean_input_same) (simp_all add: py_space_def)
  have f3: "first_segment ''/watch'' = ''watch''"
    by (simp add: first_segment_def strip_def)
  show "extract_video_id py_urllib (''https://youtu.be/watch?v='' @ vid) = []"
    unfolding extract_video_id_def c3 Let_def
    using l f3 urlparse_short_watch [OF v] by (simp add: py_urllib_def is_video_id_def)
qed

lemma extract_rows:
  fixes lib :: url_lib
  assumes n: "\<not> is_video_id (clean_input inp)"
  shows "urlparse lib (clean_input inp) = Inl e \<Longrightarrow> extract_video_id lib inp = []"
    and "urlparse lib (clean_input inp) = Inr u \<Longrightarrow> netloc u = a @ ''youtu.be'' @ b
      \<Longrightarrow> path u = replicate m CHR ''/'' @ seg @ rest \<Longrightarrow> CHR ''/'' \<notin> set seg
      \<Longrightarrow> rest = [] \<or> seg \<noteq> [] \<and> hd rest = CHR ''/''
      \<Longrightarrow> extract_video_id lib inp = (if is_video_id seg then seg else [])"
    and "urlparse lib (clean_input inp) = Inr u \<Longrightarrow> \<forall>a b. netloc u \<noteq> a @ ''youtu.be'' @ b
      \<Longrightarrow> parse_qs lib (query u) = Inl e' \<Longrightarrow> extract_video_id lib inp = []"
    and "urlparse lib (clean_input inp) = Inr u \<Longrightarrow> \<forall>a b. netloc u \<noteq> a @ ''youtu.be'' @ b
      \<Longrightarrow> parse_qs lib (query u) = Inr qs \<Longrightarrow> qs ''v'' = Some (x # xs)
      \<Longrightarrow> extract_video_id lib inp = (if is_video_id x then x else [])"
    and "urlparse lib (clean_input inp) = Inr u \<Longrightarrow> \<forall>a b. netloc u \<noteq> a @ ''youtu.be'' @ b
      \<Longrightarrow> parse_qs lib (query u) = Inr qs \<Longrightarrow> qs ''v'' = None \<or> qs ''v'' = Some []
      \<Longrightarrow> extract_video_id lib inp = []"
proof -
  show "urlparse lib (clean_input inp) = Inl e \<Longrightarrow> extract_video_id lib inp = []"
    using n by (simp add: extract_video_id_def)
next
  assume u: "urlparse lib (clean_input inp) = Inr u" and h: "netloc u = a @ ''youtu.be'' @ b"
    and p: "path u = replicate m CHR ''/'' @ seg @ rest" and s: "CHR ''/'' \<notin> set seg"
    and r: "rest = [] \<or> seg \<noteq> [] \<and> hd rest = CHR ''/''"
  have "contains ''youtu.be'' (netloc u)" unfolding contains_iff using h by blast
  moreover have "first_segment (path u) = seg" unfolding p by (rule first_segment_spec [OF s r])
  ultimately show "extract_video_id lib inp = (if is_video_id seg then seg else [])"
    using n u by (simp add: extract_video_id_def)
next
  assume u: "urlparse lib (clean_input inp) = Inr u"
    and h: "\<forall>a b. netloc u \<noteq> a @ ''youtu.be'' @ b"
  have c: "\<not> contains ''youtu.be'' (netloc u)" unfolding contains_iff using h by blast
  show "parse_qs lib (query u) = Inl e' \<Longrightarrow> extract_video_id lib inp = []"
    using n u c by (simp add: extract_video_id_def)
  show "parse_qs lib (query u) = Inr qs \<Longrightarrow> qs ''v'' = Some (x # xs)
      \<Longrightarrow> extract_video_id lib inp = (if is_video_id x then x else [])"
    using n u c by (simp add: extract_video_id_def first_v_def)
  show "parse_qs lib (query u) = Inr qs \<Longrightarrow> qs ''v'' = None \<or> qs ''v'' = Some []
      \<Longrightarrow> extract_video_id lib inp = []"
    using n u c by (auto simp: extract_video_id_def first_v_def)
qed

lemma extract_video_id_result:
  "extract_video_id lib inp = [] \<or> is_video_id (extract_video_id lib inp)"
  by (auto simp: extract_video_id_def Let_def split: sum.splits)

lemma spec_examples:
  "extract_video_id py_urllib ''https://youtu.be/dQw4w9WgXcQ?t=30'' = ''dQw4w9WgXcQ''"
  "parse_video_arg py_urllib ''not a url'' = Inl InvalidIdentifier"
  by code_simp+

text \<open>
  C7 (amended). For every input string and every behaviour of the two library functions.
  A token is a string of 11 characters of \<open>[A-Za-z0-9_-]\<close>. The input is cleaned by
  stripping white space, then double quotes, then single quotes, from both ends. A cleaned
  input that is a token is returned. Otherwise the cleaned input is parsed as a URL; if
  \<open>urlparse\<close> raises, the parser fails (the empty string, which \<open>main\<close> turns into the
  \<open>InvalidIdentifier\<close> exit). If the host contains \<open>youtu.be\<close>, the result is the first
  segment of the path (what follows the leading slashes, up to the next slash) when that
  is a token and failure when it is not, whatever the query holds; every path has such a
  segment, possibly empty. For every other host the result is the first value of the query
  parameter \<open>v\<close> when that is a token, and failure when it is not, when there is no \<open>v\<close>,
  and when \<open>parse_qs\<close> raises. So the result is always a token or the failure, and
  \<open>parse_video_arg\<close> signals \<open>InvalidIdentifier\<close> exactly at the failure. With the model of
  \<open>urllib.parse\<close>, for every token \<open>vid\<close>: \<open>vid\<close>, \<open>https://youtu.be/vid?t=30\<close> and
  \<open>https://www.youtube.com/watch?v=vid\<close> give \<open>vid\<close>, and \<open>https://youtu.be/watch?v=vid\<close>
  fails; \<open>https://youtu.be/dQw4w9WgXcQ?t=30\<close> gives \<open>dQw4w9WgXcQ\<close> and \<open>not a url\<close> fails.
\<close>

theorem extract_video_id_correct:
  "(is_video_id t
      = (length t = 11
         \<and> set t \<subseteq> set ''ABCDEFGHIJKLMNOPQRSTUVWXYZabcdefghijklmnopqrstuvwxyz0123456789_-''))
   \<and> (list_all py_space w1 \<and> list_all py_space w2
       \<and> list_all (\<lambda>ch. ch = CHR 0x22) d1 \<and> list_all (\<lambda>ch. ch = CHR 0x22) d2
       \<and> list_all (\<lambda>ch. ch = CHR 0x27) q1 \<and> list_all (\<lambda>ch. ch = CHR 0x27) q2
       \<and> (d1 @ q1 @ core @ q2 @ d2 = []
            \<or> \<not> py_space (hd (d1 @ q1 @ core @ q2 @ d2))
              \<and> \<not> py_space (last (d1 @ q1 @ core @ q2 @ d2)))
       \<and> (q1 @ core @ q2 = []
            \<or> hd (q1 @ core @ q2) \<noteq> CHR 0x22 \<and> last (q1 @ core @ q2) \<noteq> CHR 0x22)
       \<and> (core = [] \<or> hd core \<noteq> CHR 0x27 \<and> last core \<noteq> CHR 0x27)
       \<longrightarrow> clean_input (w1 @ d1 @ q1 @ core @ q2 @ d2 @ w2) = core)
   \<and> (is_video_id (clean_input inp) \<longrightarrow> extract_video_id lib inp = clean_input inp)
   \<and> (\<not> is_video_id (clean_input inp) \<and> urlparse lib (clean_input inp) = Inl e
       \<longrightarrow> extract_video_id lib inp = [])
   \<and> (\<not> is_video_id (clean_input inp) \<and> urlparse lib (clean_input inp) = Inr u
       \<and> netloc u = a @ ''youtu.be'' @ b
       \<and> path u = replicate m CHR ''/'' @ seg @ rest \<and> CHR ''/'' \<notin> set seg
       \<and> (rest = [] \<or> seg \<noteq> [] \<and> hd rest = CHR ''/'')
       \<longrightarrow> extract_video_id lib inp = (if is_video_id seg then seg else []))
   \<and> (\<exists>m seg rest. p = replicate m CHR ''/'' @ seg @ rest \<and> CHR ''/'' \<notin> set seg
         \<and> (rest = [] \<or> seg \<noteq> [] \<and> hd rest = CHR ''/''))
   \<and> (\<not> is_video_id (clean_input inp) \<and> urlparse lib (clean_input inp) = Inr u
       \<and> (\<forall>a b. netloc u \<noteq> a @ ''youtu.be'' @ b) \<and> parse_qs lib (query u) = Inl e'
       \<longrightarrow> extract_video_id lib inp = [])
   \<and> (\<not> is_video_id (clean_input inp) \<and> urlparse lib (clean_input inp) = Inr u
       \<and> (\<forall>a b. netloc u \<noteq> a @ ''youtu.be'' @ b) \<and> parse_qs lib (query u) = Inr qs
       \<and> qs ''v'' = Some (x # xs)
       \<longrightarrow> extract_video_id lib inp = (if is_video_id x then x else []))
   \<and> (\<not> is_video_id (clean_input inp) \<and> urlparse lib (clean_input inp) = Inr u
       \<and> (\<forall>a b. netloc u \<noteq> a @ ''youtu.be'' @ b) \<and> parse_qs lib (query u) = Inr qs
       \<and> (qs ''v'' = None \<or> qs ''v'' = Some [])
       \<longrightarrow> extract_video_id lib inp = [])
   \<and> (extract_video_id lib inp = [] \<or> is_video_id (extract_video_id lib inp))
   \<and> parse_video_arg lib inp
       = (if extract_video_id lib inp = [] then Inl InvalidIdentifier
          else Inr (extract_video_id lib inp))
   \<and> (is_video_id vid
       \<longrightarrow> extract_video_id py_urllib vid = vid
         \<and> extract_video_id py_urllib (''https://youtu.be/'' @ vid @ ''?t=30'') = vid
         \<and> extract_video_id py_urllib (''https://www.youtube.com/watch?v='' @ vid) = vid
         \<and> extract_video_id py_urllib (''https://youtu.be/watch?v='' @ vid) = [])
   \<and> extract_video_id py_urllib ''https://youtu.be/dQw4w9WgXcQ?t=30'' = ''dQw4w9WgXcQ''
   \<and> parse_video_arg py_urllib ''not a url'' = Inl InvalidIdentifier"
proof (intro conjI impI)
  show "is_video_id t
      = (length t = 11
         \<and> set t \<subseteq> set ''ABCDEFGHIJKLMNOPQRSTUVWXYZabcdefghijklmnopqrstuvwxyz0123456789_-'')"
    by (rule is_video_id_iff)
  show "parse_video_arg lib inp
       = (if extract_video_id lib inp = [] then Inl InvalidIdentifier
          else Inr (extract_video_id lib inp))"
    by (simp add: parse_video_arg_def)
  show "extract_video_id lib inp = [] \<or> is_video_id (extract_video_id lib inp)"
    by (rule extract_video_id_result)
  show "\<exists>m seg rest. p = replicate m CHR ''/'' @ seg @ rest \<and> CHR ''/'' \<notin> set seg
         \<and> (rest = [] \<or> seg \<noteq> [] \<and> hd rest = CHR ''/'')"
    by (rule path_decomposition)
  show "extract_video_id py_urllib ''https://youtu.be/dQw4w9WgXcQ?t=30'' = ''dQw4w9WgXcQ''"
    by (rule spec_examples)
  show "parse_video_arg py_urllib ''not a url'' = Inl InvalidIdentifier"
    by (rule spec_examples)
next
  assume "is_video_id (clean_input inp)"
  then show "extract_video_id lib inp = clean_input inp" by (simp add: extract_video_id_def)
next
  assume "list_all py_space w1 \<and> list_all py_space w2
       \<and> list_all (\<lambda>ch. ch = CHR 0x22) d1 \<and> list_all (\<lambda>ch. ch = CHR 0x22) d2
       \<and> list_all (\<lambda>ch. ch = CHR 0x27) q1 \<and> list_all (\<lambda>ch. ch = CHR 0x27) q2
       \<and> (d1 @ q1 @ core @ q2 @ d2 = []
            \<or> \<not> py_space (hd (d1 @ q1 @ core @ q2 @ d2))
              \<and> \<not> py_space (last (d1 @ q1 @ core @ q2 @ d2)))
       \<and> (q1 @ core @ q2 = []
            \<or> hd (q1 @ core @ q2) \<noteq> CHR 0x22 \<and> last (q1 @ core @ q2) \<noteq> CHR 0x22)
       \<and> (core = [] \<or> hd core \<noteq> CHR 0x27 \<and> last core \<noteq> CHR 0x27)"
  then show "clean_input (w1 @ d1 @ q1 @ core @ q2 @ d2 @ w2) = core"
    by (intro clean_input_spec) blast+
next
  assume "\<not> is_video_id (clean_input inp) \<and> urlparse lib (clean_input inp) = Inl e"
  then show "extract_video_id lib inp = []" using extract_rows(1) by blast
next
  assume "\<not> is_video_id (clean_input inp) \<and> urlparse lib (clean_input inp) = Inr u
       \<and> netloc u = a @ ''youtu.be'' @ b
       \<and> path u = replicate m CHR ''/'' @ seg @ rest \<and> CHR ''/'' \<notin> set seg
       \<and> (rest = [] \<or> seg \<noteq> [] \<and> hd rest = CHR ''/'')"
  then show "extract_video_id lib inp = (if is_video_id seg then seg else [])"
    using extract_rows(2) [of inp lib u a b m seg rest] by blast
next
  assume "\<not> is_video_id (clean_input inp) \<and> urlparse lib (clean_input inp) = Inr u
       \<and> (\<forall>a b. netloc u \<noteq> a @ ''youtu.be'' @ b) \<and> parse_qs lib (query u) = Inl e'"
  then show "extract_video_id lib inp = []" using extract_rows(3) [of inp lib u e'] by blast
next
  assume "\<not> is_video_id (clean_input inp) \<and> urlparse lib (clean_input inp) = Inr u
       \<and> (\<forall>a b. netloc u \<noteq> a @ ''youtu.be'' @ b) \<and> parse_qs lib (query u) = Inr qs
       \<and> qs ''v'' = Some (x # xs)"
  then show "extract_video_id lib inp = (if is_video_id x then x else [])"
    using extract_rows(4) [of inp lib u qs x xs] by blast
next
  assume "\<not> is_video_id (clean_input inp) \<and> urlparse lib (clean_input inp) = Inr u
       \<and> (\<forall>a b. netloc u \<noteq> a @ ''youtu.be'' @ b) \<and> parse_qs lib (query u) = Inr qs
       \<and> (qs ''v'' = None \<or> qs ''v'' = Some [])"
  then show "extract_video_id lib inp = []" using extract_rows(5) [of inp lib u qs] by blast
next
  assume v: "is_video_id vid"
  show "extract_video_id py_urllib vid = vid" by (rule extract_family(1) [OF v])
  show "extract_video_id py_urllib (''https://youtu.be/'' @ vid @ ''?t=30'') = vid"
    by (rule extract_family(2) [OF v])
  show "extract_video_id py_urllib (''https://www.youtube.com/watch?v='' @ vid) = vid"
    by (rule extract_family(3) [OF v])
  show "extract_video_id py_urllib (''https://youtu.be/watch?v='' @ vid) = []"
    by (rule extract_family(4) [OF v])
qed

text \<open>
  The rows of the theorem at concrete inputs: a quoted token, a bracketed host that
  \<open>urlparse\<close> rejects, short links with a token and with \<open>watch\<close> as first segment, a
  \<open>parse_qs\<close> that raises, and queries with two values of \<open>v\<close> and with an empty one.
\<close>

theorem extract_video_id_correct_witness:
  "clean_input (CHR 0x20 # CHR 0x22 # CHR 0x27 # ''abc_DEF-123'' @ [CHR 0x27, CHR 0x22, CHR 0x0A])
     = ''abc_DEF-123''
   \<and> extract_video_id py_urllib
       (CHR 0x20 # CHR 0x22 # CHR 0x27 # ''abc_DEF-123'' @ [CHR 0x27, CHR 0x22, CHR 0x0A])
     = ''abc_DEF-123''
   \<and> extract_video_id py_urllib ''https://[youtu.be]/abc_DEF-123'' = []
   \<and> extract_video_id py_urllib ''https://youtu.be//abc_DEF-123/x?v=dQw4w9WgXcQ'' = ''abc_DEF-123''
   \<and> extract_video_id py_urllib ''https://youtu.be/watch?v=abc_DEF-123'' = []
   \<and> extract_video_id \<lparr>urlparse = py_urlparse, parse_qs = (\<lambda>q. Inl ''error'')\<rparr>
       ''https://www.youtube.com/watch?v=abc_DEF-123'' = []
   \<and> extract_video_id py_urllib ''https://www.youtube.com/watch?t=3&v=abc_DEF-123&v=dQw4w9WgXcQ''
     = ''abc_DEF-123''
   \<and> extract_video_id py_urllib ''https://www.youtube.com/watch?t=3&v='' = []
   \<and> extract_video_id py_urllib ''https://www.youtube.com/watch?v=0123456789A'' = ''0123456789A''"
proof -
  let ?raw = "CHR 0x20 # CHR 0x22 # CHR 0x27 # ''abc_DEF-123'' @ [CHR 0x27, CHR 0x22, CHR 0x0A]"
  let ?strict = "\<lparr>urlparse = py_urlparse, parse_qs = (\<lambda>q. Inl ''error'')\<rparr>"
  have id1: "is_video_id ''abc_DEF-123''" by code_simp
  have id2: "is_video_id ''0123456789A''" by code_simp
  have id3: "\<not> is_video_id ''watch''" by code_simp
  have c1: "clean_input ?raw = ''abc_DEF-123''"
    using extract_video_id_correct
      [where ?w1.0 = "'' ''" and ?d1.0 = "[CHR 0x22]" and ?q1.0 = "[CHR 0x27]"
         and core = "''abc_DEF-123''" and ?q2.0 = "[CHR 0x27]" and ?d2.0 = "[CHR 0x22]"
         and ?w2.0 = "[CHR 0x0A]", THEN conjunct2, THEN conjunct1]
    by (simp add: py_space_def)
  have r1: "extract_video_id py_urllib ?raw = ''abc_DEF-123''"
    using extract_video_id_correct
      [where lib = py_urllib and inp = ?raw, THEN conjunct2, THEN conjunct2, THEN conjunct1]
      c1 id1
    by simp
  let ?b = "''https://[youtu.be]/abc_DEF-123''"
  have b0: "\<not> is_video_id (clean_input ?b)" by code_simp
  have b1: "urlparse py_urllib (clean_input ?b) = Inl ''Invalid bracketed host''" by code_simp
  have r2: "extract_video_id py_urllib ?b = []"
    using extract_video_id_correct
      [where lib = py_urllib and inp = ?b and e = "''Invalid bracketed host''",
        THEN conjunct2, THEN conjunct2, THEN conjunct2, THEN conjunct1]
      b0 b1
    by blast
  let ?s = "''https://youtu.be//abc_DEF-123/x?v=dQw4w9WgXcQ''"
  let ?su = "\<lparr>netloc = ''youtu.be'', path = ''//abc_DEF-123/x'', query = ''v=dQw4w9WgXcQ''\<rparr>"
  have s0: "\<not> is_video_id (clean_input ?s)" by code_simp
  have s1: "urlparse py_urllib (clean_input ?s) = Inr ?su" by code_simp
  have s2: "netloc ?su = [] @ ''youtu.be'' @ []"
    "path ?su = replicate (Suc (Suc 0)) CHR ''/'' @ ''abc_DEF-123'' @ ''/x''"
    "CHR ''/'' \<notin> set ''abc_DEF-123''"
    "''/x'' = [] \<or> ''abc_DEF-123'' \<noteq> [] \<and> hd ''/x'' = CHR ''/''"
    by simp_all
  have r3: "extract_video_id py_urllib ?s = ''abc_DEF-123''"
    using extract_video_id_correct
      [where lib = py_urllib and inp = ?s and u = ?su and a = "[]" and b = "[]"
         and m = "Suc (Suc 0)" and seg = "''abc_DEF-123''" and rest = "''/x''",
        THEN conjunct2, THEN conjunct2, THEN conjunct2, THEN conjunct2, THEN conjunct1]
      s0 s1 s2 id1
    by presburger
  let ?w = "''https://youtu.be/watch?v=abc_DEF-123''"
  let ?wu = "\<lparr>netloc = ''youtu.be'', path = ''/watch'', query = ''v=abc_DEF-123''\<rparr>"
  have w0: "\<not> is_video_id (clean_input ?w)" by code_simp
  have w1: "urlparse py_urllib (clean_input ?w) = Inr ?wu" by code_simp
  have w2: "netloc ?wu = [] @ ''youtu.be'' @ []"
    "path ?wu = replicate (Suc 0) CHR ''/'' @ ''watch'' @ []"
    "CHR ''/'' \<notin> set ''watch''"
    by simp_all
  have r4: "extract_video_id py_urllib ?w = []"
    using extract_video_id_correct
      [where lib = py_urllib and inp = ?w and u = ?wu and a = "[]" and b = "[]"
         and m = "Suc 0" and seg = "''watch''" and rest = "[]",
        THEN conjunct2, THEN conjunct2, THEN conjunct2, THEN conjunct2, THEN conjunct1]
      w0 w1 w2 id3
    by presburger
  let ?y = "''https://www.youtube.com/watch?v=abc_DEF-123''"
  let ?yu = "\<lparr>netloc = ''www.youtube.com'', path = ''/watch'', query = ''v=abc_DEF-123''\<rparr>"
  have y0: "\<not> is_video_id (clean_input ?y)" by code_simp
  have y1: "urlparse ?strict (clean_input ?y) = Inr ?yu" by code_simp
  have "\<not> contains ''youtu.be'' ''www.youtube.com''" by code_simp
  then have y2: "\<forall>a b. netloc ?yu \<noteq> a @ ''youtu.be'' @ b"
    unfolding contains_iff by simp
  have y3: "parse_qs ?strict (query ?yu) = Inl ''error''" by simp
  have r5: "extract_video_id ?strict ?y = []"
    using extract_video_id_correct
      [where lib = ?strict and inp = ?y and u = ?yu and e' = "''error''",
        THEN conjunct2, THEN conjunct2, THEN conjunct2, THEN conjunct2, THEN conjunct2,
        THEN conjunct2, THEN conjunct1]
      y0 y1 y2 y3
    by blast
  let ?z = "''https://www.youtube.com/watch?t=3&v=abc_DEF-123&v=dQw4w9WgXcQ''"
  let ?zu = "\<lparr>netloc = ''www.youtube.com'', path = ''/watch'',
              query = ''t=3&v=abc_DEF-123&v=dQw4w9WgXcQ''\<rparr>"
  have z0: "\<not> is_video_id (clean_input ?z)" by code_simp
  have z1: "urlparse py_urllib (clean_input ?z) = Inr ?zu" by code_simp
  have z2: "\<forall>a b. netloc ?zu \<noteq> a @ ''youtu.be'' @ b" using y2 by simp
  have "qs_fields (split_all CHR ''&'' [] ''t=3&v=abc_DEF-123&v=dQw4w9WgXcQ'')
      = [(''t'', ''3''), (''v'', ''abc_DEF-123''), (''v'', ''dQw4w9WgXcQ'')]"
    by code_simp
  then obtain qs where z3: "parse_qs py_urllib (query ?zu) = Inr qs"
    and z4: "qs ''v'' = Some (''abc_DEF-123'' # [''dQw4w9WgXcQ''])"
    by (simp add: py_urllib_def py_parse_qs_def)
  have r6: "extract_video_id py_urllib ?z = ''abc_DEF-123''"
    using extract_video_id_correct
      [where lib = py_urllib and inp = ?z and u = ?zu and qs = qs and x = "''abc_DEF-123''"
         and xs = "[''dQw4w9WgXcQ'']",
        THEN conjunct2, THEN conjunct2, THEN conjunct2, THEN conjunct2, THEN conjunct2,
        THEN conjunct2, THEN conjunct2, THEN conjunct1]
      z0 z1 z2 z3 z4 id1
    by presburger
  let ?n = "''https://www.youtube.com/watch?t=3&v=''"
  let ?nu = "\<lparr>netloc = ''www.youtube.com'', path = ''/watch'', query = ''t=3&v=''\<rparr>"
  have n0: "\<not> is_video_id (clean_input ?n)" by code_simp
  have n1: "urlparse py_urllib (clean_input ?n) = Inr ?nu" by code_simp
  have n2: "\<forall>a b. netloc ?nu \<noteq> a @ ''youtu.be'' @ b" using y2 by simp
  have "qs_fields (split_all CHR ''&'' [] ''t=3&v='') = [(''t'', ''3'')]"
    by code_simp
  then obtain qs' where n3: "parse_qs py_urllib (query ?nu) = Inr qs'"
    and n4: "qs' ''v'' = None"
    by (simp add: py_urllib_def py_parse_qs_def)
  have r7: "extract_video_id py_urllib ?n = []"
    using extract_video_id_correct
      [where lib = py_urllib and inp = ?n and u = ?nu and qs = qs',
        THEN conjunct2, THEN conjunct2, THEN conjunct2, THEN conjunct2, THEN conjunct2,
        THEN conjunct2, THEN conjunct2, THEN conjunct2, THEN conjunct1]
      n0 n1 n2 n3 n4
    by blast
  have r8: "extract_video_id py_urllib (''https://www.youtube.com/watch?v='' @ ''0123456789A'')
      = ''0123456789A''"
    using extract_video_id_correct
      [where vid = "''0123456789A''",
        THEN conjunct2, THEN conjunct2, THEN conjunct2, THEN conjunct2, THEN conjunct2,
        THEN conjunct2, THEN conjunct2, THEN conjunct2, THEN conjunct2, THEN conjunct2,
        THEN conjunct2, THEN conjunct1]
      id2
    by blast
  from c1 r1 r2 r3 r4 r5 r6 r7 r8 show ?thesis by simp
qed

text \<open>
  On a short link the \<open>v\<close> parameter is never read: \<open>https://youtu.be/watch?v=dQw4w9WgXcQ\<close>
  has the token \<open>dQw4w9WgXcQ\<close> as its only query field, and the parser fails on it, because
  the first path segment \<open>watch\<close> is not a token.
\<close>

theorem extract_video_id_short_link_query_counterexample:
  "py_urlparse ''https://youtu.be/watch?v=dQw4w9WgXcQ''
     = Inr \<lparr>netloc = ''youtu.be'', path = ''/watch'', query = ''v=dQw4w9WgXcQ''\<rparr>
   \<and> qs_fields (split_all CHR ''&'' [] ''v=dQw4w9WgXcQ'') = [(''v'', ''dQw4w9WgXcQ'')]
   \<and> is_video_id ''dQw4w9WgXcQ''
   \<and> first_segment ''/watch'' = ''watch''
   \<and> extract_video_id py_urllib ''https://youtu.be/watch?v=dQw4w9WgXcQ'' = []
   \<and> parse_video_arg py_urllib ''https://youtu.be/watch?v=dQw4w9WgXcQ'' = Inl InvalidIdentifier"
  by code_simp

section \<open>Elementary steps of a run\<close>

lemma save_state_fields [simp]:
  "trace (save_state c r) = trace r @ final_save c r"
  "rows (save_state c r) = rows r"
  "st (save_state c r) = st r"
  "total_rows (save_state c r) = total_rows r"
  "fetched_threads (save_state c r) = fetched_threads r"
  by (simp_all add: save_state_def final_save_def)

lemma maybe_checkpoint_fields [simp]:
  "trace (maybe_checkpoint c r) = trace r @ checkpoint_events c r"
  "rows (maybe_checkpoint c r) = rows r"
  "st (maybe_checkpoint c r) = st r"
  "total_rows (maybe_checkpoint c r) = total_rows r"
  "fetched_threads (maybe_checkpoint c r) = fetched_threads r"
  by (simp_all add: maybe_checkpoint_def checkpoint_events_def)

lemma append_row_fields [simp]:
  "trace (append_row x r) = trace r @ [Emit x]"
  "rows (append_row x r) = rows r @ [x]"
  "st (append_row x r) = st r"
  "total_rows (append_row x r) = total_rows r + 1"
  "fetched_threads (append_row x r) = fetched_threads r"
  by (simp_all add: append_row_def)

lemma final_save_simps [simp]:
  "final_save c (r\<lparr>trace := tr\<rparr>) = final_save c r"
  "final_save c (r\<lparr>fetched_threads := k\<rparr>) = final_save c r"
  "final_save c (save_state c r) = final_save c r"
  "final_save c (maybe_checkpoint c r) = final_save c r"
  "final_save c (append_row x r) = final_save c r"
  by (simp_all add: final_save_def)

lemma emitted_append [simp]: "emitted (xs @ ys) = emitted xs @ emitted ys"
  by (induction xs rule: emitted.induct) simp_all

lemma saved_append [simp]: "saved (xs @ ys) = saved xs @ saved ys"
  by (induction xs rule: saved.induct) simp_all

lemma emitted_final_save [simp]: "emitted (final_save c r) = []"
  by (simp add: final_save_def)

lemma emitted_checkpoint_events [simp]: "emitted (checkpoint_events c r) = []"
  by (simp add: checkpoint_events_def)

subsection \<open>The loops without local bindings\<close>

lemma emit_replies_Cons:
  "emit_replies c top_id upd (x # xs) r =
     (if limit_hit (max_total c) (total_rows r + 1)
      then (Returned,
            save_state c
              ((maybe_checkpoint c (append_row (mk_row c (cid x) (Some top_id) (snip x)) r))
                 \<lparr>st := upd (st r)\<rparr>))
      else emit_replies c top_id upd xs
             (maybe_checkpoint c (append_row (mk_row c (cid x) (Some top_id) (snip x)) r)))"
  by (simp add: Let_def)

lemma reply_loop_Suc:
  "reply_loop c api resuming (Suc n) top_id reply_page r =
     (case list_replies api (ncalls (trace r)) top_id reply_page of
        Inl msg \<Rightarrow>
          if contains ''quotaExceeded'' msg
          then (Returned,
                save_state c (r\<lparr>trace := trace r @ [CallReplies top_id reply_page (Inl msg)]\<rparr>))
          else (Raised msg, r\<lparr>trace := trace r @ [CallReplies top_id reply_page (Inl msg)]\<rparr>)
      | Inr page \<Rightarrow>
          (case emit_replies c top_id
                  (if resuming then (\<lambda>s. s) else (\<lambda>s. s\<lparr>reply_page_token := r_next page\<rparr>))
                  (r_items page)
                  (r\<lparr>trace := trace r @ [CallReplies top_id reply_page (Inr page)]\<rparr>) of
             (Continue, r2) \<Rightarrow>
               if truthy (r_next page)
               then reply_loop c api resuming n top_id (r_next page)
                      (r2\<lparr>st := (st r2)\<lparr>reply_page_token := r_next page\<rparr>\<rparr>)
               else (Continue, r2\<lparr>st := (st r2)\<lparr>reply_page_token := r_next page\<rparr>\<rparr>)
           | out \<Rightarrow> out))"
  by (auto simp: Let_def split: sum.splits prod.splits status.splits)

lemma thread_items_Cons:
  "thread_items c api n page (it # its) r =
     (if cid (topLevelComment it) \<in> processed_top_level (st r)
      then thread_items c api n page its r
      else if limit_hit (max_top_level c) (fetched_threads r + 1)
              \<or> limit_hit (max_total c) (total_rows r + 1)
      then (Returned,
            save_state c
              ((maybe_checkpoint c
                  ((append_row (mk_row c (cid (topLevelComment it)) None
                                  (snip (topLevelComment it))) r)
                     \<lparr>fetched_threads := fetched_threads r + 1\<rparr>))
                 \<lparr>st := (st r)\<lparr>page_token := t_next page\<rparr>\<rparr>))
      else if no_replies c
      then thread_items c api n page its
             (maybe_checkpoint c
                ((append_row (mk_row c (cid (topLevelComment it)) None
                                (snip (topLevelComment it))) r)
                   \<lparr>fetched_threads := fetched_threads r + 1\<rparr>))
      else
        (case emit_replies c (cid (topLevelComment it)) (\<lambda>s. s\<lparr>page_token := t_next page\<rparr>)
                (inline_replies it)
                (maybe_checkpoint c
                   ((append_row (mk_row c (cid (topLevelComment it)) None
                                   (snip (topLevelComment it))) r)
                      \<lparr>fetched_threads := fetched_threads r + 1\<rparr>)) of
           (Continue, r2) \<Rightarrow>
             if get_or (totalReplyCount it) 0 \<noteq> 0 then
               (case reply_loop c api False n (cid (topLevelComment it)) None
                       (save_state c
                          (r2\<lparr>st := (st r2)\<lparr>current_top_id := Some (cid (topLevelComment it)),
                                             reply_page_token := None\<rparr>\<rparr>)) of
                  (Continue, r4) \<Rightarrow>
                    thread_items c api n page its
                      (save_state c
                         (r4\<lparr>st := mark_processed (cid (topLevelComment it)) (st r4)\<rparr>))
                | out \<Rightarrow> out)
             else thread_items c api n page its r2
         | out \<Rightarrow> out))"
  by (auto simp: Let_def split: prod.splits status.splits)

lemma thread_loop_Suc:
  "thread_loop c api (Suc n) page_tok seen_tokens r =
     (case list_threads api (ncalls (trace r)) page_tok of
        Inl msg \<Rightarrow>
          if contains ''quotaExceeded'' msg
          then (Returned,
                save_state c
                  (r\<lparr>trace := trace r @ [CallThreads page_tok (Inl msg)],
                      st := (st r)\<lparr>page_token := page_tok\<rparr>\<rparr>))
          else if truthy page_tok
                  \<and> (contains ''processingFailure'' msg \<or> contains ''invalidPageToken'' msg)
          then thread_loop c api n None seen_tokens
                 (r\<lparr>trace := trace r @ [CallThreads page_tok (Inl msg)]\<rparr>)
          else (Raised msg, r\<lparr>trace := trace r @ [CallThreads page_tok (Inl msg)]\<rparr>)
      | Inr page \<Rightarrow>
          (case thread_items c api n page (t_items page)
                  (r\<lparr>trace := trace r @ [CallThreads page_tok (Inr page)]\<rparr>) of
             (Continue, r2) \<Rightarrow>
               if \<not> truthy (t_next page) then (Returned, r2)
               else if the (t_next page) \<in> seen_tokens
               then thread_loop c api n None seen_tokens r2
               else thread_loop c api n (t_next page)
                      (insert (the (t_next page)) seen_tokens) r2
           | out \<Rightarrow> out))"
  by (auto simp: Let_def split: sum.splits prod.splits status.splits option.splits)

lemma fetch_all_comments_unfold:
  "fetch_all_comments c api prior n =
     (if \<not> truthy (api_key c)
      then (Raised ''Please set YT_API_KEY environment variable.'',
            \<lparr>st = init_state c prior, rows = [], total_rows = 0, fetched_threads = 0,
             trace = []\<rparr>)
      else if truthy (current_top_id (init_state c prior)) \<and> \<not> no_replies c
      then
        (case reply_loop c api True n (the (current_top_id (init_state c prior)))
                (reply_page_token (init_state c prior))
                \<lparr>st = init_state c prior, rows = [], total_rows = 0, fetched_threads = 0,
                 trace = []\<rparr> of
           (Continue, r1) \<Rightarrow>
             thread_loop c api n (page_token (st r1)) {}
               (save_state c
                  (r1\<lparr>st := mark_processed (the (current_top_id (init_state c prior)))
                              (st r1)\<rparr>))
         | out \<Rightarrow> out)
      else thread_loop c api n (page_token (init_state c prior)) {}
             \<lparr>st = init_state c prior, rows = [], total_rows = 0, fetched_threads = 0,
              trace = []\<rparr>)"
  by (auto simp: fetch_all_comments_def Let_def mark_processed_def
      split: sum.splits prod.splits status.splits option.splits)

declare emit_replies.simps(2) [simp del]
declare reply_loop.simps(2) [simp del]
declare thread_items.simps(2) [simp del]
declare thread_loop.simps(2) [simp del]
declare emit_replies_Cons [simp]
declare reply_loop_Suc [simp]
declare thread_items_Cons [simp]
declare thread_loop_Suc [simp]

section \<open>Stopping on quota exhaustion\<close>

lemma quota_free_append [simp]: "quota_free (xs @ ys) = (quota_free xs \<and> quota_free ys)"
  by (simp add: quota_free_def)

lemma quota_event_simps [simp]:
  "\<not> quota_event (Emit x)"
  "\<not> quota_event (Save s)"
  "\<not> quota_event (CallReplies tid tok (Inr p))"
  "\<not> quota_event (CallThreads tok (Inr q))"
  "quota_event (CallReplies tid tok (Inl m)) = contains ''quotaExceeded'' m"
  "quota_event (CallThreads tok (Inl m)) = contains ''quotaExceeded'' m"
  by (simp_all add: quota_event_def)

lemma quota_free_simps [simp]:
  "quota_free []"
  "quota_free (e # es) = (\<not> quota_event e \<and> quota_free es)"
  "quota_free (final_save c r)"
  "quota_free (checkpoint_events c r)"
  by (simp_all add: quota_free_def final_save_def checkpoint_events_def)

lemma quota_post_emit_replies:
  assumes "quota_free (trace r)" "rows r = emitted (trace r)"
  shows "quota_free (trace (snd (emit_replies c top_id upd xs r)))
     \<and> rows (snd (emit_replies c top_id upd xs r))
       = emitted (trace (snd (emit_replies c top_id upd xs r)))"
  using assms
proof (induction xs arbitrary: r)
  case Nil
  then show ?case by simp
next
  case (Cons x xs)
  let ?r1 = "maybe_checkpoint c (append_row (mk_row c (cid x) (Some top_id) (snip x)) r)"
  have "quota_free (trace ?r1)" "rows ?r1 = emitted (trace ?r1)"
    using Cons.prems by simp_all
  from Cons.IH[OF this] show ?case using Cons.prems by (simp add: Let_def)
qed

lemma quota_post_reply_loop:
  assumes "quota_free (trace r)" "rows r = emitted (trace r)"
  shows "quota_post c (reply_loop c api resuming n top_id tok r)"
  using assms
proof (induction n arbitrary: tok r)
  case 0
  then show ?case by (simp add: quota_post_def)
next
  case (Suc n)
  let ?resp = "list_replies api (ncalls (trace r)) top_id tok"
  let ?r1 = "r\<lparr>trace := trace r @ [CallReplies top_id tok ?resp]\<rparr>"
  show ?case
  proof (cases ?resp)
    case (Inl m)
    show ?thesis
    proof (cases "contains ''quotaExceeded'' m")
      case True
      have "quota_stop c Returned (save_state c ?r1)"
        unfolding quota_stop_def using Suc.prems Inl True
        by (auto intro!: exI[of _ "trace r"])
      then show ?thesis using Suc.prems Inl True by (simp add: quota_post_def)
    next
      case False
      then show ?thesis using Suc.prems Inl by (simp add: quota_post_def)
    qed
  next
    case (Inr page)
    let ?upd = "if resuming then (\<lambda>s. s) else (\<lambda>s. s\<lparr>reply_page_token := r_next page\<rparr>)"
    obtain s2 r2 where e: "emit_replies c top_id ?upd (r_items page) ?r1 = (s2, r2)"
      by (cases "emit_replies c top_id ?upd (r_items page) ?r1")
    have q1: "quota_free (trace ?r1)" "rows ?r1 = emitted (trace ?r1)"
      using Suc.prems Inr by simp_all
    from quota_post_emit_replies[OF q1, of c top_id ?upd "r_items page"] e
    have q2: "quota_free (trace r2)" "rows r2 = emitted (trace r2)" by simp_all
    let ?r3 = "r2\<lparr>st := (st r2)\<lparr>reply_page_token := r_next page\<rparr>\<rparr>"
    have q3: "quota_free (trace ?r3)" "rows ?r3 = emitted (trace ?r3)"
      using q2 by simp_all
    show ?thesis
    proof (cases s2)
      case Continue
      then show ?thesis
        using Inr e q3 Suc.IH[OF q3, of "r_next page"]
        by (simp add: Let_def quota_post_def)
    qed (use Inr e q2 in \<open>simp_all add: quota_post_def\<close>)
  qed
qed

lemma quota_post_thread_items:
  assumes "quota_free (trace r)" "rows r = emitted (trace r)"
  shows "quota_post c (thread_items c api n page its r)"
  using assms
proof (induction its arbitrary: r)
  case Nil
  then show ?case by (simp add: quota_post_def)
next
  case (Cons it its)
  let ?top_id = "cid (topLevelComment it)"
  show ?case
  proof (cases "?top_id \<in> processed_top_level (st r)")
    case True
    then show ?thesis using Cons.IH[OF Cons.prems] by simp
  next
    case False
    let ?r1 = "maybe_checkpoint c
                 ((append_row (mk_row c ?top_id None (snip (topLevelComment it))) r)
                    \<lparr>fetched_threads := fetched_threads r + 1\<rparr>)"
    have q1: "quota_free (trace ?r1)" "rows ?r1 = emitted (trace ?r1)"
      using Cons.prems by simp_all
    let ?upd = "\<lambda>s. s\<lparr>page_token := t_next page\<rparr>"
    obtain s2 r2 where e: "emit_replies c ?top_id ?upd (inline_replies it) ?r1 = (s2, r2)"
      by (cases "emit_replies c ?top_id ?upd (inline_replies it) ?r1")
    from quota_post_emit_replies[OF q1, of c ?top_id ?upd "inline_replies it"] e
    have q2: "quota_free (trace r2)" "rows r2 = emitted (trace r2)" by simp_all
    let ?r3 = "save_state c (r2\<lparr>st := (st r2)\<lparr>current_top_id := Some ?top_id,
                                               reply_page_token := None\<rparr>\<rparr>)"
    have q3: "quota_free (trace ?r3)" "rows ?r3 = emitted (trace ?r3)"
      using q2 by simp_all
    obtain s4 r4 where l: "reply_loop c api False n ?top_id None ?r3 = (s4, r4)"
      by (cases "reply_loop c api False n ?top_id None ?r3")
    have p4: "quota_post c (s4, r4)"
      using quota_post_reply_loop[OF q3, of c api False n ?top_id None] l by simp
    let ?r5 = "save_state c (r4\<lparr>st := mark_processed ?top_id (st r4)\<rparr>)"
    have q5: "s4 = Continue \<Longrightarrow> quota_post c (thread_items c api n page its ?r5)"
    proof -
      assume "s4 = Continue"
      then have "quota_free (trace ?r5)" "rows ?r5 = emitted (trace ?r5)"
        using p4 by (simp_all add: quota_post_def)
      then show ?thesis by (rule Cons.IH)
    qed
    have after_inline: "quota_post c
        (case (s2, r2) of
           (Continue, r2) \<Rightarrow>
             if get_or (totalReplyCount it) 0 \<noteq> 0 then
               (case reply_loop c api False n ?top_id None
                       (save_state c (r2\<lparr>st := (st r2)\<lparr>current_top_id := Some ?top_id,
                                                        reply_page_token := None\<rparr>\<rparr>)) of
                  (Continue, r4) \<Rightarrow>
                    thread_items c api n page its
                      (save_state c (r4\<lparr>st := mark_processed ?top_id (st r4)\<rparr>))
                | out \<Rightarrow> out)
             else thread_items c api n page its r2
         | out \<Rightarrow> out)"
    proof (cases s2)
      case Continue
      show ?thesis
      proof (cases "get_or (totalReplyCount it) 0 \<noteq> 0")
        case True
        show ?thesis
          using Continue True l p4 q5 by (cases s4) simp_all
      next
        case False
        then show ?thesis using Continue Cons.IH[OF q2] by simp
      qed
    qed (use q2 in \<open>simp_all add: quota_post_def\<close>)
    have stop: "\<And>s'. quota_post c (Returned, save_state c (?r1\<lparr>st := s'\<rparr>))"
      using q1 by (simp add: quota_post_def)
    show ?thesis
      using False Cons.IH[OF q1] after_inline e stop
      by simp
  qed
qed

lemma quota_post_thread_loop:
  assumes "quota_free (trace r)" "rows r = emitted (trace r)"
  shows "quota_post c (thread_loop c api n tok seen r)"
  using assms
proof (induction n arbitrary: tok seen r)
  case 0
  then show ?case by (simp add: quota_post_def Let_def)
next
  case (Suc n)
  let ?resp = "list_threads api (ncalls (trace r)) tok"
  let ?r1 = "r\<lparr>trace := trace r @ [CallThreads tok ?resp]\<rparr>"
  show ?case
  proof (cases ?resp)
    case (Inl m)
    show ?thesis
    proof (cases "contains ''quotaExceeded'' m")
      case True
      have "quota_stop c Returned (save_state c (?r1\<lparr>st := (st ?r1)\<lparr>page_token := tok\<rparr>\<rparr>))"
        unfolding quota_stop_def using Suc.prems Inl True
        by (auto simp: final_save_def intro!: exI[of _ "trace r"])
      then show ?thesis using Suc.prems Inl True by (simp add: quota_post_def Let_def)
    next
      case False
      have q1: "quota_free (trace ?r1)" "rows ?r1 = emitted (trace ?r1)"
        using Suc.prems Inl False by simp_all
      show ?thesis using Inl False q1 Suc.IH[OF q1, of None seen]
        by (simp add: quota_post_def Let_def)
    qed
  next
    case (Inr page)
    have q1: "quota_free (trace ?r1)" "rows ?r1 = emitted (trace ?r1)"
      using Suc.prems Inr by simp_all
    obtain s2 r2 where e: "thread_items c api n page (t_items page) ?r1 = (s2, r2)"
      by (cases "thread_items c api n page (t_items page) ?r1")
    have p2: "quota_post c (s2, r2)"
      using quota_post_thread_items[OF q1, of c api n page "t_items page"] e by simp
    show ?thesis
    proof (cases s2)
      case Continue
      then have q2: "quota_free (trace r2)" "rows r2 = emitted (trace r2)"
        using p2 by (simp_all add: quota_post_def)
      show ?thesis
        using Inr e Continue q2 Suc.IH[OF q2]
        by (simp add: quota_post_def Let_def split: option.splits)
    qed (use Inr e p2 in \<open>simp_all add: Let_def\<close>)
  qed
qed

lemma quota_post_fetch: "quota_post c (fetch_all_comments c api prior n)"
proof -
  let ?r = "\<lparr>st = init_state c prior, rows = [], total_rows = 0, fetched_threads = 0,
             trace = []\<rparr>"
  have q0: "quota_free (trace ?r)" "rows ?r = emitted (trace ?r)" by simp_all
  have loop: "\<And>tok. quota_post c (thread_loop c api n tok {} ?r)"
    using quota_post_thread_loop[OF q0] by simp
  show ?thesis
  proof (cases "current_top_id (init_state c prior)")
    case None
    then show ?thesis using loop by (simp add: fetch_all_comments_unfold quota_post_def)
  next
    case (Some top_id)
    obtain s1 r1 where l: "reply_loop c api True n top_id
        (reply_page_token (init_state c prior)) ?r = (s1, r1)"
      by (cases "reply_loop c api True n top_id (reply_page_token (init_state c prior)) ?r")
    have p1: "quota_post c (s1, r1)"
      using quota_post_reply_loop[OF q0, of c api True n top_id
          "reply_page_token (init_state c prior)"] l by simp
    let ?r2 = "save_state c (r1\<lparr>st := mark_processed top_id (st r1)\<rparr>)"
    have "s1 = Continue \<Longrightarrow> quota_post c (thread_loop c api n (page_token (st ?r2)) {} ?r2)"
    proof -
      assume "s1 = Continue"
      then have "quota_free (trace ?r2)" "rows ?r2 = emitted (trace ?r2)"
        using p1 by (simp_all add: quota_post_def)
      then show ?thesis by (rule quota_post_thread_loop)
    qed
    then show ?thesis
      using Some loop l p1
      by (cases s1) (simp_all add: fetch_all_comments_def quota_post_def Let_def)
  qed
qed

lemma quota_event_unique:
  assumes "pre @ e # post = pre' @ e' # post'"
    and "quota_event e" "quota_free pre'" "quota_free post'"
  shows "pre = pre' \<and> e = e' \<and> post = post'"
proof -
  have "length pre = length pre'"
  proof (rule ccontr)
    assume ne: "length pre \<noteq> length pre'"
    have "(pre' @ e' # post') ! length pre = e"
      using assms(1) by (metis nth_append_length)
    moreover have "(pre' @ e' # post') ! length pre \<in> set pre' \<union> set post'"
    proof (cases "length pre < length pre'")
      case True
      then show ?thesis by (simp add: nth_append)
    next
      case False
      then have gt: "length pre' < length pre" using ne by simp
      have "length pre < length (pre' @ e' # post')"
        using assms(1) by (metis length_append length_Cons less_add_Suc1 add_Suc_right)
      then have "length pre - Suc (length pre') < length post'" using gt by simp
      then show ?thesis using gt
        by (auto simp: nth_append nth_Cons' )
    qed
    ultimately show False using assms(2-4) by (auto simp: quota_free_def list_all_iff)
  qed
  then show ?thesis using assms(1) by simp
qed

text \<open>
  C3 (amended). For every run, if any remote call (thread-list page or reply page) raises
  an error whose message contains \<open>quotaExceeded\<close>, then \<open>fetch_all_comments\<close> returns
  normally, the returned rows are exactly the rows appended before the failing call, and
  nothing happens after the failing call except, when a checkpoint path is configured,
  the write of the final traversal state; without a checkpoint path nothing is written.
\<close>

theorem quota_stop_returns_partial:
  assumes "fetch_all_comments c api prior n = (s, r)"
    and "trace r = pre @ e # post"
    and "quota_event e"
  shows "s = Returned
     \<and> rows r = emitted pre
     \<and> post = (if truthy (save_state_path c) then [Save (st r)] else [])"
proof -
  have p: "quota_post c (s, r)" using quota_post_fetch[of c api prior n] assms(1) by simp
  have "\<not> quota_free (trace r)" using assms(2,3) by simp
  then have "quota_stop c s r" and rows: "rows r = emitted (trace r)"
    using p by (simp_all add: quota_post_def)
  then obtain pre' e' where t: "trace r = pre' @ e' # final_save c r"
    and q: "quota_event e'" "quota_free pre'" and s: "s = Returned"
    by (auto simp: quota_stop_def)
  have "pre = pre' \<and> e = e' \<and> post = final_save c r"
    using quota_event_unique[of pre e post pre' e' "final_save c r"] assms(2,3) t q by simp
  moreover have "emitted (e # final_save c r) = []"
    using assms(3) by (cases e) simp_all
  ultimately show ?thesis using s rows t
    by (simp add: final_save_def)
qed

text \<open>
  A run against \<open>quota_remote\<close>: the first thread page gives the threads \<open>a\<close> and \<open>b\<close>, the
  request for the second page fails with a quota error. The run returns the two rows.
\<close>

theorem quota_stop_returns_partial_witness:
  "quota_event (CallThreads (Some ''P2'') (Inl ''HttpError 403: quotaExceeded''))
   \<and> fst (fetch_all_comments demo_config quota_remote None 3) = Returned
   \<and> map comment_id (rows (snd (fetch_all_comments demo_config quota_remote None 3)))
       = [''a'', ''b'']
   \<and> drop 4 (trace (snd (fetch_all_comments demo_config quota_remote None 3)))
       = [Save (st (snd (fetch_all_comments demo_config quota_remote None 3)))]"
proof -
  let ?F = "fetch_all_comments demo_config quota_remote None 3"
  let ?e = "CallThreads (Some ''P2'') (Inl ''HttpError 403: quotaExceeded'')"
  have f: "?F = (fst ?F, snd ?F)" by simp
  have t: "trace (snd ?F) = take 3 (trace (snd ?F)) @ ?e # drop 4 (trace (snd ?F))"
    by code_simp
  have q: "quota_event ?e" by code_simp
  have p: "truthy (save_state_path demo_config)" by code_simp
  have m: "map comment_id (emitted (take 3 (trace (snd ?F)))) = [''a'', ''b'']"
    by code_simp
  from quota_stop_returns_partial [OF f t q] p m q show ?thesis by simp
qed

text \<open>
  The claim as stated promises a checkpoint write on every quota stop. Without a
  checkpoint path (the default of \<open>save_state_path\<close>) the same run stops on the quota
  error of its second call and writes nothing.
\<close>

theorem quota_stop_without_path_counterexample:
  "quota_event (trace (snd (fetch_all_comments (demo_config\<lparr>save_state_path := None\<rparr>)
                              quota_remote None 3)) ! 3)
   \<and> fst (fetch_all_comments (demo_config\<lparr>save_state_path := None\<rparr>) quota_remote None 3)
       = Returned
   \<and> saved (trace (snd (fetch_all_comments (demo_config\<lparr>save_state_path := None\<rparr>)
                          quota_remote None 3))) = []"
  by code_simp

section \<open>Reply pages first on resume\<close>

lemma is_call_simps [simp]:
  "is_call (CallThreads tok res)" "is_call (CallReplies tid tok res')"
  "\<not> is_call (Emit x)" "\<not> is_call (Save s)"
  by (simp_all add: is_call_def)

lemma thread_call_simps [simp]:
  "thread_call (CallThreads tok res)" "\<not> thread_call (CallReplies tid tok res')"
  "\<not> thread_call (Emit x)" "\<not> thread_call (Save s)"
  by (simp_all add: thread_call_def)

lemma no_calls_in_saves [simp]:
  "list_all (\<lambda>e. \<not> is_call e) (final_save c r)"
  "list_all (\<lambda>e. \<not> is_call e) (checkpoint_events c r)"
  by (simp_all add: final_save_def checkpoint_events_def)

lemma emit_replies_trace:
  "\<exists>seg. trace (snd (emit_replies c tid upd xs r)) = trace r @ seg
     \<and> list_all (\<lambda>e. \<not> is_call e) seg"
proof (induction xs arbitrary: r)
  case Nil
  show ?case by simp
next
  case (Cons x xs)
  let ?r1 = "maybe_checkpoint c (append_row (mk_row c (cid x) (Some tid) (snip x)) r)"
  obtain seg where "trace (snd (emit_replies c tid upd xs ?r1)) = trace ?r1 @ seg"
    "list_all (\<lambda>e. \<not> is_call e) seg"
    using Cons[of ?r1] by blast
  then show ?case by simp
qed

lemma no_calls_only_replies:
  "list_all (\<lambda>e. \<not> is_call e) seg \<Longrightarrow> only_replies_to tid seg"
  by (induction seg) (auto simp: only_replies_to_def is_call_def split: event.splits)

lemma no_calls_no_thread_calls:
  "list_all (\<lambda>e. \<not> is_call e) seg \<Longrightarrow> list_all (\<lambda>e. \<not> thread_call e) seg"
  by (induction seg) (auto simp: thread_call_def is_call_def split: event.splits)

lemma only_replies_no_thread_calls:
  "only_replies_to tid seg \<Longrightarrow> list_all (\<lambda>e. \<not> thread_call e) seg"
  by (induction seg) (auto simp: only_replies_to_def thread_call_def split: event.splits)

lemma only_replies_to_append [simp]:
  "only_replies_to tid (xs @ ys) = (only_replies_to tid xs \<and> only_replies_to tid ys)"
  by (simp add: only_replies_to_def)

lemma only_replies_to_Cons [simp]:
  "only_replies_to tid (CallReplies t tok res # es) = (t = tid \<and> only_replies_to tid es)"
  "only_replies_to tid [] = True"
  by (simp_all add: only_replies_to_def)

lemma replies_finished_prepend:
  "replies_finished tid seg \<Longrightarrow> replies_finished tid (pre @ seg)"
  unfolding replies_finished_def
  by (metis append_assoc)

lemma replies_finished_append:
  assumes "replies_finished tid seg" "list_all (\<lambda>e. \<not> is_call e) post"
  shows "replies_finished tid (seg @ post)"
proof -
  obtain a tok page b where "seg = a @ CallReplies tid tok (Inr page) # b"
    "\<not> truthy (r_next page)" "list_all (\<lambda>e. \<not> is_call e) b"
    using assms(1) unfolding replies_finished_def by blast
  then have "seg @ post = a @ CallReplies tid tok (Inr page) # (b @ post)"
    "list_all (\<lambda>e. \<not> is_call e) (b @ post)"
    using assms(2) by simp_all
  then show ?thesis unfolding replies_finished_def using \<open>\<not> truthy (r_next page)\<close> by blast
qed

lemma reply_loop_trace:
  "\<exists>res seg. trace (snd (reply_loop c api resuming (Suc n) tid tok r))
       = trace r @ CallReplies tid tok res # seg
     \<and> only_replies_to tid seg
     \<and> (fst (reply_loop c api resuming (Suc n) tid tok r) = Continue
          \<longrightarrow> replies_finished tid (CallReplies tid tok res # seg))"
proof (induction n arbitrary: tok r)
  case 0
  let ?resp = "list_replies api (ncalls (trace r)) tid tok"
  show ?case
  proof (cases ?resp)
    case (Inl m)
    then show ?thesis by (auto intro: no_calls_only_replies)
  next
    case (Inr page)
    let ?upd = "if resuming then (\<lambda>s. s) else (\<lambda>s. s\<lparr>reply_page_token := r_next page\<rparr>)"
    let ?r1 = "r\<lparr>trace := trace r @ [CallReplies tid tok (Inr page)]\<rparr>"
    obtain s2 r2 where e: "emit_replies c tid ?upd (r_items page) ?r1 = (s2, r2)"
      by (cases "emit_replies c tid ?upd (r_items page) ?r1")
    obtain seg where seg: "trace r2 = trace ?r1 @ seg" "list_all (\<lambda>e. \<not> is_call e) seg"
      using emit_replies_trace[of c tid ?upd "r_items page" ?r1] e by auto
    have fin: "\<not> truthy (r_next page) \<Longrightarrow> replies_finished tid (CallReplies tid tok (Inr page) # seg)"
      unfolding replies_finished_def using seg(2) by (metis append_Nil)
    show ?thesis using Inr e seg fin
      by (cases s2) (auto intro: no_calls_only_replies)
  qed
next
  case (Suc n)
  let ?resp = "list_replies api (ncalls (trace r)) tid tok"
  show ?case
  proof (cases ?resp)
    case (Inl m)
    then show ?thesis by (auto intro: no_calls_only_replies)
  next
    case (Inr page)
    let ?upd = "if resuming then (\<lambda>s. s) else (\<lambda>s. s\<lparr>reply_page_token := r_next page\<rparr>)"
    let ?r1 = "r\<lparr>trace := trace r @ [CallReplies tid tok (Inr page)]\<rparr>"
    obtain s2 r2 where e: "emit_replies c tid ?upd (r_items page) ?r1 = (s2, r2)"
      by (cases "emit_replies c tid ?upd (r_items page) ?r1")
    obtain seg where seg: "trace r2 = trace ?r1 @ seg" "list_all (\<lambda>e. \<not> is_call e) seg"
      using emit_replies_trace[of c tid ?upd "r_items page" ?r1] e by auto
    have fin: "\<not> truthy (r_next page) \<Longrightarrow> replies_finished tid (CallReplies tid tok (Inr page) # seg)"
      unfolding replies_finished_def using seg(2) by (metis append_Nil)
    let ?r3 = "r2\<lparr>st := (st r2)\<lparr>reply_page_token := r_next page\<rparr>\<rparr>"
    let ?L = "reply_loop c api resuming (Suc n) tid (r_next page) ?r3"
    obtain res' seg' where rec: "trace (snd ?L) = trace ?r3 @ CallReplies tid (r_next page) res' # seg'"
      "only_replies_to tid seg'"
      "fst ?L = Continue \<longrightarrow> replies_finished tid (CallReplies tid (r_next page) res' # seg')"
      using Suc[of "r_next page" ?r3] by blast
    show ?thesis
    proof (cases "s2 = Continue \<and> truthy (r_next page)")
      case True
      have "trace (snd ?L) = trace r @ CallReplies tid tok (Inr page)
              # (seg @ CallReplies tid (r_next page) res' # seg')"
        using rec(1) seg(1) by simp
      moreover have "only_replies_to tid (seg @ CallReplies tid (r_next page) res' # seg')"
        using rec(2) seg(2) by (simp add: no_calls_only_replies)
      moreover have "fst ?L = Continue \<longrightarrow> replies_finished tid
          (CallReplies tid tok (Inr page) # (seg @ CallReplies tid (r_next page) res' # seg'))"
        using rec(3)
          replies_finished_prepend[of tid "CallReplies tid (r_next page) res' # seg'"
            "CallReplies tid tok (Inr page) # seg"]
        by simp
      moreover have "reply_loop c api resuming (Suc (Suc n)) tid tok r = ?L"
        using Inr e True by (subst reply_loop_Suc) simp
      ultimately show ?thesis by metis
    next
      case False
      then show ?thesis using Inr e seg fin
        by (subst (1 2) reply_loop_Suc, cases s2) (auto intro: no_calls_only_replies)
    qed
  qed
qed

lemma emit_replies_grows:
  "\<exists>seg. trace (snd (emit_replies c tid upd xs r)) = trace r @ seg"
  using emit_replies_trace[of c tid upd xs r] by blast

lemma reply_loop_grows:
  "\<exists>seg. trace (snd (reply_loop c api resuming n tid tok r)) = trace r @ seg"
proof (cases n)
  case 0
  then show ?thesis by simp
next
  case (Suc m)
  then show ?thesis using reply_loop_trace[of c api resuming m tid tok r] by blast
qed

lemma thread_items_grows:
  "\<exists>seg. trace (snd (thread_items c api n page its r)) = trace r @ seg"
proof (induction its arbitrary: r)
  case Nil
  show ?case by simp
next
  case (Cons it its)
  let ?tid = "cid (topLevelComment it)"
  let ?r1 = "maybe_checkpoint c
               ((append_row (mk_row c ?tid None (snip (topLevelComment it))) r)
                  \<lparr>fetched_threads := fetched_threads r + 1\<rparr>)"
  let ?upd = "\<lambda>s. s\<lparr>page_token := t_next page\<rparr>"
  obtain s2 r2 where e: "emit_replies c ?tid ?upd (inline_replies it) ?r1 = (s2, r2)"
    by (cases "emit_replies c ?tid ?upd (inline_replies it) ?r1")
  obtain seg2 where g2: "trace r2 = trace ?r1 @ seg2"
    using emit_replies_grows[of c ?tid ?upd "inline_replies it" ?r1] e by auto
  let ?r3 = "save_state c (r2\<lparr>st := (st r2)\<lparr>current_top_id := Some ?tid,
                                             reply_page_token := None\<rparr>\<rparr>)"
  obtain s4 r4 where l: "reply_loop c api False n ?tid None ?r3 = (s4, r4)"
    by (cases "reply_loop c api False n ?tid None ?r3")
  obtain seg4 where g4: "trace r4 = trace ?r3 @ seg4"
    using reply_loop_grows[of c api False n ?tid None ?r3] l by auto
  let ?r5 = "save_state c (r4\<lparr>st := mark_processed ?tid (st r4)\<rparr>)"
  obtain seg5 where g5: "trace (snd (thread_items c api n page its ?r5)) = trace ?r5 @ seg5"
    using Cons[of ?r5] by blast
  obtain seg6 where g6: "trace (snd (thread_items c api n page its r2)) = trace r2 @ seg6"
    using Cons[of r2] by blast
  obtain seg7 where g7: "trace (snd (thread_items c api n page its ?r1)) = trace ?r1 @ seg7"
    using Cons[of ?r1] by blast
  show ?case
    using Cons[of r] e l g2 g4 g5 g6 g7
    by (cases s2; cases s4) auto
qed

lemma thread_loop_grows:
  "\<exists>seg. trace (snd (thread_loop c api n tok seen r)) = trace r @ seg"
proof (induction n arbitrary: tok seen r)
  case 0
  show ?case by simp
next
  case (Suc n)
  let ?resp = "list_threads api (ncalls (trace r)) tok"
  show ?case
  proof (cases ?resp)
    case (Inl m)
    let ?r1 = "r\<lparr>trace := trace r @ [CallThreads tok (Inl m)]\<rparr>"
    obtain seg where "trace (snd (thread_loop c api n None seen ?r1)) = trace ?r1 @ seg"
      using Suc[of None seen ?r1] by blast
    then show ?thesis using Inl by auto
  next
    case (Inr page)
    let ?r1 = "r\<lparr>trace := trace r @ [CallThreads tok (Inr page)]\<rparr>"
    obtain s2 r2 where e: "thread_items c api n page (t_items page) ?r1 = (s2, r2)"
      by (cases "thread_items c api n page (t_items page) ?r1")
    obtain seg2 where g2: "trace r2 = trace ?r1 @ seg2"
      using thread_items_grows[of c api n page "t_items page" ?r1] e by auto
    obtain sega where ga: "trace (snd (thread_loop c api n None seen r2)) = trace r2 @ sega"
      using Suc[of None seen r2] by blast
    obtain segb where gb: "trace (snd (thread_loop c api n (t_next page)
        (insert (the (t_next page)) seen) r2)) = trace r2 @ segb"
      using Suc[of "t_next page" "insert (the (t_next page)) seen" r2] by blast
    show ?thesis using Inr e g2 ga gb by (cases s2) auto
  qed
qed

lemma thread_loop_starts:
  "\<exists>res rest. trace (snd (thread_loop c api (Suc n) tok seen r))
      = trace r @ CallThreads tok res # rest"
proof -
  let ?resp = "list_threads api (ncalls (trace r)) tok"
  show ?thesis
  proof (cases ?resp)
    case (Inl m)
    let ?r1 = "r\<lparr>trace := trace r @ [CallThreads tok (Inl m)]\<rparr>"
    obtain seg where "trace (snd (thread_loop c api n None seen ?r1)) = trace ?r1 @ seg"
      using thread_loop_grows[of c api n None seen ?r1] by blast
    then show ?thesis using Inl by auto
  next
    case (Inr page)
    let ?r1 = "r\<lparr>trace := trace r @ [CallThreads tok (Inr page)]\<rparr>"
    obtain s2 r2 where e: "thread_items c api n page (t_items page) ?r1 = (s2, r2)"
      by (cases "thread_items c api n page (t_items page) ?r1")
    obtain seg2 where g2: "trace r2 = trace ?r1 @ seg2"
      using thread_items_grows[of c api n page "t_items page" ?r1] e by auto
    obtain sega where ga: "trace (snd (thread_loop c api n None seen r2)) = trace r2 @ sega"
      using thread_loop_grows[of c api n None seen r2] by blast
    obtain segb where gb: "trace (snd (thread_loop c api n (t_next page)
        (insert (the (t_next page)) seen) r2)) = trace r2 @ segb"
      using thread_loop_grows[of c api n "t_next page" "insert (the (t_next page)) seen" r2]
      by blast
    show ?thesis using Inr e g2 ga gb by (cases s2) auto
  qed
qed

text \<open>
  C5 (amended). For every resumed run that loads a checkpoint whose \<open>current_top_id\<close> is
  a non-empty thread id, when replies are not suppressed (\<open>no_replies\<close> false), the API key
  is set and the loops may run: the first remote call is the reply-page request for that
  thread at the saved \<open>reply_page_token\<close>; every remote call before the first thread-list
  request is a reply-page request for that thread; and a thread-list request is made only
  after a reply-page request for that thread succeeded and announced no further page.
\<close>

theorem resume_finishes_replies_first:
  assumes "resume c" and "truthy (save_state_path c)" and "truthy (api_key c)"
    and "\<not> no_replies c"
    and "prior = Some p" and "st_video_id p = video_id c" and "st_order p = order c"
    and "current_top_id p = Some tid" and "tid \<noteq> []"
    and "fetch_all_comments c api prior (Suc n) = (s, r)"
  shows "(\<exists>res rest. trace r = CallReplies tid (reply_page_token p) res # rest)
     \<and> only_replies_to tid (takeWhile (\<lambda>e. \<not> thread_call e) (trace r))
     \<and> (list_ex thread_call (trace r)
          \<longrightarrow> replies_finished tid (takeWhile (\<lambda>e. \<not> thread_call e) (trace r)))"
proof -
  have i: "init_state c prior = p"
    using assms(1,2,5,6,7) by (simp add: init_state_def)
  let ?r0 = "\<lparr>st = p, rows = [], total_rows = 0, fetched_threads = 0, trace = []\<rparr>"
  let ?L = "reply_loop c api True (Suc n) tid (reply_page_token p) ?r0"
  obtain s1 r1 where l: "?L = (s1, r1)" by (cases ?L)
  obtain res seg where t1: "trace r1 = CallReplies tid (reply_page_token p) res # seg"
    and o1: "only_replies_to tid seg"
    and f1: "s1 = Continue \<longrightarrow> replies_finished tid (CallReplies tid (reply_page_token p) res # seg)"
    using reply_loop_trace[of c api True n tid "reply_page_token p" ?r0] l by auto
  have nt1: "list_all (\<lambda>e. \<not> thread_call e) (trace r1)"
    using t1 o1 only_replies_no_thread_calls[of tid seg] by simp
  show ?thesis
  proof (cases "s1 = Continue")
    case False
    then have "(s, r) = (s1, r1)"
      using assms(3,4,8,9,10) i l
      by (subst (asm) fetch_all_comments_unfold, cases s1) (simp_all del: reply_loop_Suc)
    then have r: "r = r1" by simp
    have tw: "takeWhile (\<lambda>e. \<not> thread_call e) (trace r1) = trace r1"
      using nt1 by (simp add: list_all_iff)
    have nl: "\<not> list_ex thread_call (trace r1)"
      using nt1 by (simp add: list_all_iff list_ex_iff)
    show ?thesis unfolding r tw using t1 o1 nl by simp
  next
    case True
    let ?r2 = "save_state c (r1\<lparr>st := mark_processed tid (st r1)\<rparr>)"
    have "(s, r) = thread_loop c api (Suc n) (page_token (st r1)) {} ?r2"
      using assms(3,4,8,9,10) i l True
      by (subst (asm) fetch_all_comments_unfold) (simp del: reply_loop_Suc thread_loop_Suc)
    then have r: "r = snd (thread_loop c api (Suc n) (page_token (st r1)) {} ?r2)"
      by (metis snd_conv)
    obtain res' rest where "trace (snd (thread_loop c api (Suc n) (page_token (st r1)) {} ?r2))
        = trace ?r2 @ CallThreads (page_token (st r1)) res' # rest"
      using thread_loop_starts[of c api n "page_token (st r1)" "{}" ?r2] by blast
    then have t: "trace r
        = (trace r1 @ final_save c ?r2) @ CallThreads (page_token (st r1)) res' # rest"
      unfolding r by (simp add: final_save_def)
    have nt2: "list_all (\<lambda>e. \<not> thread_call e) (trace r1 @ final_save c ?r2)"
      using nt1 no_calls_no_thread_calls[OF no_calls_in_saves(1)[of c ?r2]] by simp
    have tw: "takeWhile (\<lambda>e. \<not> thread_call e) (trace r) = trace r1 @ final_save c ?r2"
    proof -
      have "takeWhile (\<lambda>e. \<not> thread_call e)
              ((trace r1 @ final_save c ?r2) @ CallThreads (page_token (st r1)) res' # rest)
            = (trace r1 @ final_save c ?r2)
              @ takeWhile (\<lambda>e. \<not> thread_call e) (CallThreads (page_token (st r1)) res' # rest)"
        using nt2 by (intro takeWhile_append2) (simp add: list_all_iff)
      then show ?thesis unfolding t by simp
    qed
    have c1: "\<exists>res rest. trace r = CallReplies tid (reply_page_token p) res # rest"
      unfolding t t1 by simp
    have c2: "only_replies_to tid (takeWhile (\<lambda>e. \<not> thread_call e) (trace r))"
      unfolding tw
      using t1 o1 no_calls_only_replies[OF no_calls_in_saves(1)[of c ?r2]] by simp
    have "replies_finished tid (trace r1)"
      using f1 True t1 by simp
    then have c3: "replies_finished tid (takeWhile (\<lambda>e. \<not> thread_call e) (trace r))"
      unfolding tw by (rule replies_finished_append) (rule no_calls_in_saves(1))
    show ?thesis using c1 c2 c3 by blast
  qed
qed

theorem resume_finishes_replies_first_witness:
  "take 1 (trace (snd (fetch_all_comments (demo_config\<lparr>resume := True\<rparr>) paged_remote
        (Some mid_reply_checkpoint) 3)))
     = [CallReplies ''a'' (Some ''R2'')
          (Inr \<lparr>r_items = [demo_comment ''a2''], r_next = Some ''R3''\<rparr>)]
   \<and> list_ex thread_call (trace (snd (fetch_all_comments (demo_config\<lparr>resume := True\<rparr>)
        paged_remote (Some mid_reply_checkpoint) 3)))
   \<and> replies_finished ''a'' (takeWhile (\<lambda>e. \<not> thread_call e)
        (trace (snd (fetch_all_comments (demo_config\<lparr>resume := True\<rparr>) paged_remote
           (Some mid_reply_checkpoint) 3))))"
proof -
  let ?c = "demo_config\<lparr>resume := True\<rparr>"
  let ?F = "fetch_all_comments ?c paged_remote (Some mid_reply_checkpoint) 3"
  have f: "fetch_all_comments ?c paged_remote (Some mid_reply_checkpoint) (Suc 2) = (fst ?F, snd ?F)"
    by (simp add: numeral_3_eq_3)
  have h: "resume ?c" "truthy (save_state_path ?c)" "truthy (api_key ?c)" "\<not> no_replies ?c"
    "st_video_id mid_reply_checkpoint = video_id ?c" "st_order mid_reply_checkpoint = order ?c"
    "current_top_id mid_reply_checkpoint = Some ''a''" "''a'' \<noteq> []"
    by (simp_all add: demo_config_def mid_reply_checkpoint_def)
  have a: "take 1 (trace (snd ?F))
     = [CallReplies ''a'' (Some ''R2'')
          (Inr \<lparr>r_items = [demo_comment ''a2''], r_next = Some ''R3''\<rparr>)]"
    by code_simp
  have b: "list_ex thread_call (trace (snd ?F))"
    by code_simp
  from resume_finishes_replies_first [OF h(1-4) refl h(5-8) f] a b show ?thesis by simp
qed

text \<open>
  The claim as stated covers every resumed run with \<open>current_top_id\<close> set. With replies
  suppressed (\<open>no_replies\<close>), the guard of line 74 skips the reply pages: the first remote
  call of the same resume is a thread-list request.
\<close>

theorem resume_no_replies_counterexample:
  "current_top_id (init_state (demo_config\<lparr>resume := True, no_replies := True\<rparr>)
       (Some mid_reply_checkpoint)) = Some ''a''
   \<and> take 1 (trace (snd (fetch_all_comments (demo_config\<lparr>resume := True, no_replies := True\<rparr>)
        paged_remote (Some mid_reply_checkpoint) 3)))
     = [CallThreads None
          (Inr \<lparr>t_items = [demo_thread ''a'', demo_thread ''b''], t_next = None\<rparr>)]"
  by code_simp

section \<open>Stopping at the \<open>max_top_level\<close> limit\<close>

lemma last_page_snoc [simp]:
  "last_page (tr @ [CallThreads tok (Inr page)]) = Some page"
  "last_page (tr @ [CallThreads tok (Inl m)]) = None"
  by (simp_all add: last_page_def)

lemma last_page_append_other:
  "list_all (\<lambda>e. \<not> thread_call e) seg \<Longrightarrow> last_page (tr @ seg) = last_page tr"
proof (induction seg rule: rev_induct)
  case Nil
  show ?case by simp
next
  case (snoc e seg)
  then have "last_page (tr @ seg) = last_page tr" by simp
  moreover have "last_page ((tr @ seg) @ [e]) = last_page (tr @ seg)"
    using snoc.prems by (cases e) (simp_all add: last_page_def)
  ultimately show ?case by simp
qed

lemma only_saves_simps [simp]:
  "only_saves []"
  "only_saves (final_save c r)"
  "only_saves (checkpoint_events c r)"
  "only_saves (xs @ ys) = (only_saves xs \<and> only_saves ys)"
  by (simp_all add: only_saves_def final_save_def checkpoint_events_def)

lemma emitted_only_saves: "only_saves post \<Longrightarrow> emitted post = []"
  by (induction post rule: emitted.induct) (simp_all add: only_saves_def)

lemma emit_replies_fetched [simp]:
  "fetched_threads (snd (emit_replies c tid upd xs r)) = fetched_threads r"
  by (induction xs arbitrary: r) simp_all

lemma reply_loop_fetched [simp]:
  "fetched_threads (snd (reply_loop c api resuming n tid tok r)) = fetched_threads r"
proof (induction n arbitrary: tok r)
  case 0
  show ?case by simp
next
  case (Suc n)
  show ?case
  proof (cases "list_replies api (ncalls (trace r)) tid tok")
    case (Inl m)
    then show ?thesis by simp
  next
    case (Inr page)
    let ?upd = "if resuming then (\<lambda>s. s) else (\<lambda>s. s\<lparr>reply_page_token := r_next page\<rparr>)"
    let ?r1 = "r\<lparr>trace := trace r @ [CallReplies tid tok (Inr page)]\<rparr>"
    obtain s2 r2 where e: "emit_replies c tid ?upd (r_items page) ?r1 = (s2, r2)"
      by (cases "emit_replies c tid ?upd (r_items page) ?r1")
    have "fetched_threads r2 = fetched_threads r"
      using emit_replies_fetched[of c tid ?upd "r_items page" ?r1] e by simp
    then show ?thesis using Inr e Suc by (cases s2) simp_all
  qed
qed

lemma emit_replies_st_Continue:
  "emit_replies c tid upd xs r = (Continue, r') \<Longrightarrow> st r' = st r"
  by (induction xs arbitrary: r) (simp_all split: if_splits)

lemma emit_replies_last_page:
  "last_page (trace (snd (emit_replies c tid upd xs r))) = last_page (trace r)"
proof -
  obtain seg where "trace (snd (emit_replies c tid upd xs r)) = trace r @ seg"
    "list_all (\<lambda>e. \<not> is_call e) seg"
    using emit_replies_trace[of c tid upd xs r] by blast
  then show ?thesis
    using last_page_append_other[OF no_calls_no_thread_calls, of seg "trace r"] by simp
qed

lemma reply_loop_last_page:
  "last_page (trace (snd (reply_loop c api resuming n tid tok r))) = last_page (trace r)"
proof (cases n)
  case 0
  then show ?thesis by simp
next
  case (Suc m)
  obtain res seg where t: "trace (snd (reply_loop c api resuming (Suc m) tid tok r))
      = trace r @ CallReplies tid tok res # seg" and o: "only_replies_to tid seg"
    using reply_loop_trace[of c api resuming m tid tok r] by blast
  have "list_all (\<lambda>e. \<not> thread_call e) (CallReplies tid tok res # seg)"
    using only_replies_no_thread_calls[OF o] by simp
  from last_page_append_other[OF this, of "trace r"] show ?thesis
    unfolding Suc t by simp
qed

lemma reply_loop_st_Continue:
  "reply_loop c api resuming n tid tok r = (Continue, r')
   \<Longrightarrow> \<exists>t. st r' = (st r)\<lparr>reply_page_token := t\<rparr>"
proof (induction n arbitrary: tok r)
  case 0
  then show ?case by simp
next
  case (Suc n)
  show ?case
  proof (cases "list_replies api (ncalls (trace r)) tid tok")
    case (Inl m)
    then show ?thesis using Suc.prems by (simp split: if_splits)
  next
    case (Inr page)
    let ?upd = "if resuming then (\<lambda>s. s) else (\<lambda>s. s\<lparr>reply_page_token := r_next page\<rparr>)"
    let ?r1 = "r\<lparr>trace := trace r @ [CallReplies tid tok (Inr page)]\<rparr>"
    obtain s2 r2 where e: "emit_replies c tid ?upd (r_items page) ?r1 = (s2, r2)"
      by (cases "emit_replies c tid ?upd (r_items page) ?r1")
    have c2: "s2 = Continue" using Suc.prems Inr e by (cases s2) simp_all
    then have s2: "st r2 = st r" using emit_replies_st_Continue[of c tid ?upd "r_items page" ?r1 r2] e
      by simp
    let ?r3 = "r2\<lparr>st := (st r2)\<lparr>reply_page_token := r_next page\<rparr>\<rparr>"
    show ?thesis
    proof (cases "truthy (r_next page)")
      case True
      then have "reply_loop c api resuming n tid (r_next page) ?r3 = (Continue, r')"
        using Suc.prems Inr e c2 by simp
      from Suc.IH[OF this] obtain t where "st r' = (st ?r3)\<lparr>reply_page_token := t\<rparr>" by blast
      then show ?thesis using s2 by (intro exI[of _ t]) simp
    next
      case False
      then have "r' = ?r3" using Suc.prems Inr e c2 by simp
      then show ?thesis using s2 by (intro exI[of _ "r_next page"]) simp
    qed
  qed
qed

lemma last_page_append_simps [simp]:
  "last_page (tr @ final_save c r) = last_page tr"
  "last_page (tr @ checkpoint_events c r) = last_page tr"
  "last_page (tr @ Emit x # es) = last_page (tr @ es)"
  "last_page (tr @ Save s # es) = last_page (tr @ es)"
  by (simp_all add: last_page_def final_save_def checkpoint_events_def)

lemma limit_not_hit:
  "0 < k \<Longrightarrow> \<not> limit_hit (Some k) v \<Longrightarrow> v < k"
  by simp

lemma limit_post_thread_items:
  assumes "max_top_level c = Some k" "0 < k"
    and "fetched_threads r < k" "last_page (trace r) = Some page"
    and "set its \<subseteq> set (t_items page)"
  shows "limit_post c k (thread_items c api n page its r)"
  using assms(3-5)
proof (induction its arbitrary: r)
  case Nil
  then show ?case by (simp add: limit_post_def)
next
  case (Cons it its)
  let ?tid = "cid (topLevelComment it)"
  let ?x = "mk_row c ?tid None (snip (topLevelComment it))"
  have sub: "set its \<subseteq> set (t_items page)" and mem: "it \<in> set (t_items page)"
    using Cons.prems(3) by simp_all
  show ?case
  proof (cases "?tid \<in> processed_top_level (st r)")
    case True
    then show ?thesis using Cons.IH[OF Cons.prems(1,2) sub] by simp
  next
    case False
    let ?r1 = "maybe_checkpoint c ((append_row ?x r)\<lparr>fetched_threads := fetched_threads r + 1\<rparr>)"
    have lp1: "last_page (trace ?r1) = Some page"
      using Cons.prems(2) by simp
    show ?thesis
    proof (cases "limit_hit (max_top_level c) (fetched_threads r + 1)
                  \<or> limit_hit (max_total c) (total_rows r + 1)")
      case True
      let ?r' = "save_state c (?r1\<lparr>st := (st r)\<lparr>page_token := t_next page\<rparr>\<rparr>)"
      have res: "thread_items c api n page (it # its) r = (Returned, ?r')"
        using False True by simp
      have "fetched_threads ?r' < k \<or> limit_stop c k ?r'"
      proof (cases "fetched_threads r + 1 < k")
        case True
        then show ?thesis by simp
      next
        case nlt: False
        then have eq: "fetched_threads ?r' = k" using Cons.prems(1) by simp
        have tr: "trace ?r' = trace r @ Emit ?x
            # (checkpoint_events c ((append_row ?x r)\<lparr>fetched_threads := fetched_threads r + 1\<rparr>)
               @ final_save c ?r')"
          by (simp add: final_save_def)
        let ?cps = "checkpoint_events c
              ((append_row ?x r)\<lparr>fetched_threads := fetched_threads r + 1\<rparr>)"
        have "trace ?r' = trace r @ Emit ?x # ?cps @ final_save c ?r' \<and> only_saves ?cps
            \<and> last_page (trace r) = Some page \<and> it \<in> set (t_items page)
            \<and> ?tid \<notin> processed_top_level (st ?r')
            \<and> page_token (st ?r') = t_next page"
          using tr Cons.prems(2) mem False by simp
        then have "limit_stop c k ?r'"
          unfolding limit_stop_def using eq by blast
        then show ?thesis by simp
      qed
      then show ?thesis unfolding res by (auto simp: limit_post_def)
    next
      case nolim: False
      then have lt1: "fetched_threads ?r1 < k"
        using assms(1,2) limit_not_hit[of k "fetched_threads r + 1"] by simp
      let ?upd = "\<lambda>s. s\<lparr>page_token := t_next page\<rparr>"
      obtain s2 r2 where e: "emit_replies c ?tid ?upd (inline_replies it) ?r1 = (s2, r2)"
        by (cases "emit_replies c ?tid ?upd (inline_replies it) ?r1")
      have f2: "fetched_threads r2 < k"
        using emit_replies_fetched[of c ?tid ?upd "inline_replies it" ?r1] e lt1 by simp
      have lp2: "last_page (trace r2) = Some page"
        using emit_replies_last_page[of c ?tid ?upd "inline_replies it" ?r1] e lp1 by simp
      let ?r3 = "save_state c (r2\<lparr>st := (st r2)\<lparr>current_top_id := Some ?tid,
                                                 reply_page_token := None\<rparr>\<rparr>)"
      obtain s4 r4 where l: "reply_loop c api False n ?tid None ?r3 = (s4, r4)"
        by (cases "reply_loop c api False n ?tid None ?r3")
      have f4: "fetched_threads r4 < k"
        using reply_loop_fetched[of c api False n ?tid None ?r3] l f2 by simp
      have lp4: "last_page (trace r4) = Some page"
        using reply_loop_last_page[of c api False n ?tid None ?r3] l lp2 by simp
      let ?r5 = "save_state c (r4\<lparr>st := mark_processed ?tid (st r4)\<rparr>)"
      have i5: "limit_post c k (thread_items c api n page its ?r5)"
        using f4 lp4 sub by (intro Cons.IH) simp_all
      have i2: "limit_post c k (thread_items c api n page its r2)"
        using f2 lp2 sub by (intro Cons.IH) simp_all
      have i1: "limit_post c k (thread_items c api n page its ?r1)"
        using lt1 lp1 sub by (intro Cons.IH) simp_all
      have o2: "s2 \<noteq> Continue \<Longrightarrow> limit_post c k (s2, r2)"
        using f2 by (simp add: limit_post_def)
      have o4: "s4 \<noteq> Continue \<Longrightarrow> limit_post c k (s4, r4)"
        using f4 by (simp add: limit_post_def)
      show ?thesis
        using False nolim e l i1 i2 i5 o2 o4
        by (cases s2; cases s4) simp_all
    qed
  qed
qed

lemma limit_post_thread_loop:
  assumes "max_top_level c = Some k" "0 < k" and "fetched_threads r < k"
  shows "limit_post c k (thread_loop c api n tok seen r)"
  using assms(3)
proof (induction n arbitrary: tok seen r)
  case 0
  then show ?case by (simp add: limit_post_def)
next
  case (Suc n)
  show ?case
  proof (cases "list_threads api (ncalls (trace r)) tok")
    case (Inl m)
    let ?r1 = "r\<lparr>trace := trace r @ [CallThreads tok (Inl m)]\<rparr>"
    have "limit_post c k (thread_loop c api n None seen ?r1)"
      using Suc.prems by (intro Suc.IH) simp
    then show ?thesis using Inl Suc.prems by (simp add: limit_post_def)
  next
    case (Inr page)
    let ?r1 = "r\<lparr>trace := trace r @ [CallThreads tok (Inr page)]\<rparr>"
    obtain s2 r2 where e: "thread_items c api n page (t_items page) ?r1 = (s2, r2)"
      by (cases "thread_items c api n page (t_items page) ?r1")
    have p2: "limit_post c k (s2, r2)"
      using limit_post_thread_items[OF assms(1,2), of ?r1 page "t_items page" api n] e Suc.prems
      by simp
    have rec: "s2 = Continue \<Longrightarrow> limit_post c k (thread_loop c api n tok' seen' r2)" for tok' seen'
      using p2 by (intro Suc.IH) (simp add: limit_post_def)
    show ?thesis using Inr e p2 rec
      by (cases s2) (simp_all add: limit_post_def)
  qed
qed

lemma limit_post_fetch:
  assumes "max_top_level c = Some k" "0 < k"
  shows "limit_post c k (fetch_all_comments c api prior n)"
proof -
  let ?r0 = "\<lparr>st = init_state c prior, rows = [], total_rows = 0, fetched_threads = 0,
              trace = []\<rparr>"
  let ?tid = "the (current_top_id (init_state c prior))"
  have z: "fetched_threads ?r0 < k" using assms(2) by simp
  obtain s1 r1 where l: "reply_loop c api True n ?tid (reply_page_token (init_state c prior)) ?r0
      = (s1, r1)"
    by (cases "reply_loop c api True n ?tid (reply_page_token (init_state c prior)) ?r0")
  have f1: "fetched_threads r1 < k"
    using reply_loop_fetched[of c api True n ?tid "reply_page_token (init_state c prior)" ?r0] l z
    by simp
  let ?r2 = "save_state c (r1\<lparr>st := mark_processed ?tid (st r1)\<rparr>)"
  have a: "limit_post c k (thread_loop c api n (page_token (st r1)) {} ?r2)"
    using f1 by (intro limit_post_thread_loop[OF assms]) simp
  have b: "limit_post c k (thread_loop c api n (page_token (init_state c prior)) {} ?r0)"
    by (intro limit_post_thread_loop[OF assms] z)
  have o1: "s1 \<noteq> Continue \<Longrightarrow> limit_post c k (s1, r1)"
    using f1 by (simp add: limit_post_def)
  have k: "limit_post c k (Raised m, ?r0)" for m
    using z by (simp add: limit_post_def)
  show ?thesis
    using l a b o1 k
    by (subst fetch_all_comments_unfold, cases s1) (simp_all del: reply_loop_Suc thread_loop_Suc)
qed

lemma reply_loop_no_thread_calls:
  "\<exists>seg. trace (snd (reply_loop c api resuming n tid tok r)) = trace r @ seg
     \<and> list_all (\<lambda>e. \<not> thread_call e) seg"
proof (cases n)
  case 0
  then show ?thesis by simp
next
  case (Suc m)
  obtain res seg where t: "trace (snd (reply_loop c api resuming (Suc m) tid tok r))
      = trace r @ CallReplies tid tok res # seg" and o: "only_replies_to tid seg"
    using reply_loop_trace[of c api resuming m tid tok r] by blast
  have "list_all (\<lambda>e. \<not> thread_call e) (CallReplies tid tok res # seg)"
    using only_replies_no_thread_calls[OF o] by simp
  then show ?thesis using t Suc by blast
qed

lemma first_split_unique:
  assumes "a @ x # b = a' @ x' # b'" and "P x" "P x'"
    and "list_all (\<lambda>e. \<not> P e) a" "list_all (\<lambda>e. \<not> P e) a'"
  shows "a = a' \<and> x = x'"
proof -
  have "takeWhile (\<lambda>e. \<not> P e) (a @ x # b) = a"
    using assms(2,4) by (simp add: takeWhile_append2 list_all_iff)
  moreover have "takeWhile (\<lambda>e. \<not> P e) (a' @ x' # b') = a'"
    using assms(3,5) by (simp add: takeWhile_append2 list_all_iff)
  ultimately have "a = a'" using assms(1) by simp
  then show ?thesis using assms(1) by simp
qed

lemma thread_loop_first_call:
  assumes "thread_loop c api n tok0 seen r0 = (s, r)"
    and "list_all (\<lambda>e. \<not> thread_call e) (trace r0)"
    and "trace r = pre @ CallThreads tok res # post"
    and "list_all (\<lambda>e. \<not> thread_call e) pre"
  shows "tok = tok0"
proof (cases n)
  case 0
  then have "trace r = trace r0" using assms(1) by simp
  then have "list_all (\<lambda>e. \<not> thread_call e) (pre @ CallThreads tok res # post)"
    using assms(2,3) by simp
  then show ?thesis by simp
next
  case (Suc m)
  obtain res' rest where "trace r = trace r0 @ CallThreads tok0 res' # rest"
    using thread_loop_starts[of c api m tok0 seen r0] assms(1) Suc by auto
  then have "pre @ CallThreads tok res # post = trace r0 @ CallThreads tok0 res' # rest"
    using assms(3) by simp
  from first_split_unique[OF this, of thread_call] assms(2,4) show ?thesis by simp
qed

lemma first_thread_call_token:
  assumes "fetch_all_comments c api prior n = (s, r)"
    and "trace r = pre @ CallThreads tok res # post"
    and "list_all (\<lambda>e. \<not> thread_call e) pre"
  shows "tok = page_token (init_state c prior)"
proof -
  let ?st0 = "init_state c prior"
  let ?r0 = "\<lparr>st = ?st0, rows = [], total_rows = 0, fetched_threads = 0, trace = []\<rparr>"
  let ?tid = "the (current_top_id ?st0)"
  have tc: "\<not> list_all (\<lambda>e. \<not> thread_call e) (trace r)"
    using assms(2) by simp
  have direct: "thread_loop c api n (page_token ?st0) {} ?r0 = (s, r) \<Longrightarrow> ?thesis"
    using thread_loop_first_call[of c api n "page_token ?st0" "{}" ?r0 s r pre tok res post]
      assms(2,3) by simp
  obtain s1 r1 where l: "reply_loop c api True n ?tid (reply_page_token ?st0) ?r0 = (s1, r1)"
    by (cases "reply_loop c api True n ?tid (reply_page_token ?st0) ?r0")
  have n1: "list_all (\<lambda>e. \<not> thread_call e) (trace r1)"
    using reply_loop_no_thread_calls[of c api True n ?tid "reply_page_token ?st0" ?r0] l
    by auto
  let ?r2 = "save_state c (r1\<lparr>st := mark_processed ?tid (st r1)\<rparr>)"
  have resumed: "s1 = Continue \<Longrightarrow> thread_loop c api n (page_token (st r1)) {} ?r2 = (s, r)
      \<Longrightarrow> ?thesis"
  proof -
    assume a: "s1 = Continue" "thread_loop c api n (page_token (st r1)) {} ?r2 = (s, r)"
    obtain t where "st r1 = (st ?r0)\<lparr>reply_page_token := t\<rparr>"
      using reply_loop_st_Continue[of c api True n ?tid "reply_page_token ?st0" ?r0 r1] l a(1)
      by auto
    then have pt: "page_token (st r1) = page_token ?st0" by simp
    have "list_all (\<lambda>e. \<not> thread_call e) (trace ?r2)"
      using n1 no_calls_no_thread_calls[OF no_calls_in_saves(1)[of c ?r2]] by simp
    from thread_loop_first_call[OF a(2) this assms(2,3)] show ?thesis using pt by simp
  qed
  show ?thesis
    using assms(1) tc direct resumed l n1
    by (subst (asm) fetch_all_comments_unfold, cases s1)
      (auto simp del: reply_loop_Suc thread_loop_Suc split: if_splits)
qed

text \<open>
  C9 (amended). For every run with a positive \<open>max_top_level = k\<close> in which the limit is
  reached (\<open>fetched_threads\<close> reaches \<open>k\<close>): the run returns; its last row is the top-level
  row of an item of the thread page being processed, and no row and no remote call
  follows it, so neither that thread's inline replies nor its reply pages are fetched
  after it in this run; the thread is not in \<open>processed_top_level\<close>; the \<open>page_token\<close> of
  the final state is the \<open>nextPageToken\<close> of that page (null on the last page); when a
  checkpoint path is configured the last thing the run does is to write that final state,
  which is then the state the checkpoint holds (without a path nothing is written); and
  every resume that loads this state makes its first thread-list request at that token:
  when the state has no \<open>current_top_id\<close>, that request is the first thing the resume
  does. A null token is the request for the first page.
\<close>

theorem top_level_limit_stops_at_once:
  assumes "max_top_level c = Some k" and "0 < k"
    and "fetch_all_comments c api prior n = (s, r)"
    and "k \<le> fetched_threads r"
  shows "s = Returned \<and> fetched_threads r = k
     \<and> (\<exists>pre cps page it.
           trace r = pre @ Emit (mk_row c (cid (topLevelComment it)) None
                                  (snip (topLevelComment it)))
                       # cps @ (if truthy (save_state_path c) then [Save (st r)] else [])
           \<and> only_saves cps
           \<and> rows r = emitted pre @ [mk_row c (cid (topLevelComment it)) None
                                        (snip (topLevelComment it))]
           \<and> last_page pre = Some page
           \<and> it \<in> set (t_items page)
           \<and> cid (topLevelComment it) \<notin> processed_top_level (st r)
           \<and> page_token (st r) = t_next page)
     \<and> (truthy (save_state_path c)
          \<longrightarrow> saved (trace r) \<noteq> [] \<and> last (saved (trace r)) = st r
              \<and> last_saved (init_state c prior) (trace r) = st r)
     \<and> (\<forall>c' api' n' s' r' pre' tok res post'.
           resume c' \<and> truthy (save_state_path c')
           \<and> video_id c' = st_video_id (st r) \<and> order c' = st_order (st r)
           \<and> fetch_all_comments c' api' (Some (st r)) n' = (s', r')
           \<and> trace r' = pre' @ CallThreads tok res # post'
           \<and> list_all (\<lambda>e. \<not> thread_call e) pre'
           \<longrightarrow> tok = page_token (st r))
     \<and> (\<forall>c' api' n'.
           resume c' \<and> truthy (save_state_path c') \<and> truthy (api_key c')
           \<and> video_id c' = st_video_id (st r) \<and> order c' = st_order (st r)
           \<and> current_top_id (st r) = None
           \<longrightarrow> (\<exists>res rest.
                  trace (snd (fetch_all_comments c' api' (Some (st r)) (Suc n')))
                    = CallThreads (page_token (st r)) res # rest))"
proof -
  have "limit_post c k (s, r)"
    using limit_post_fetch[OF assms(1,2), of api prior n] assms(3) by simp
  then have s: "s = Returned" and ls: "limit_stop c k r"
    using assms(4) by (auto simp: limit_post_def)
  have rows: "rows r = emitted (trace r)"
    using quota_post_fetch[of c api prior n] assms(3) by (simp add: quota_post_def)
  obtain pre cps page it where
    t: "trace r = pre @ Emit (mk_row c (cid (topLevelComment it)) None
                                  (snip (topLevelComment it))) # cps @ final_save c r"
    and rest: "only_saves cps" "last_page pre = Some page" "it \<in> set (t_items page)"
      "cid (topLevelComment it) \<notin> processed_top_level (st r)"
      "page_token (st r) = t_next page"
    and f: "fetched_threads r = k"
    using ls unfolding limit_stop_def by blast
  have t': "trace r = pre @ Emit (mk_row c (cid (topLevelComment it)) None
                                  (snip (topLevelComment it)))
                       # cps @ (if truthy (save_state_path c) then [Save (st r)] else [])"
    using t by (simp add: final_save_def)
  have r': "rows r = emitted pre @ [mk_row c (cid (topLevelComment it)) None
                                        (snip (topLevelComment it))]"
    unfolding rows t using emitted_only_saves[OF rest(1)] by simp
  have shape: "\<exists>pre cps page it.
           trace r = pre @ Emit (mk_row c (cid (topLevelComment it)) None
                                  (snip (topLevelComment it)))
                       # cps @ (if truthy (save_state_path c) then [Save (st r)] else [])
           \<and> only_saves cps
           \<and> rows r = emitted pre @ [mk_row c (cid (topLevelComment it)) None
                                        (snip (topLevelComment it))]
           \<and> last_page pre = Some page
           \<and> it \<in> set (t_items page)
           \<and> cid (topLevelComment it) \<notin> processed_top_level (st r)
           \<and> page_token (st r) = t_next page"
    using t' r' rest by blast
  have held: "saved (trace r) \<noteq> [] \<and> last (saved (trace r)) = st r
      \<and> last_saved (init_state c prior) (trace r) = st r" if "truthy (save_state_path c)"
    unfolding t' using that by (simp add: last_saved_def)
  have resumed: "tok = page_token (st r)"
    if "resume c'" "truthy (save_state_path c')"
      "video_id c' = st_video_id (st r)" "order c' = st_order (st r)"
      "fetch_all_comments c' api' (Some (st r)) n' = (s', r')"
      "trace r' = pre' @ CallThreads tok res # post'"
      "list_all (\<lambda>e. \<not> thread_call e) pre'"
    for c' api' n' s' r' pre' tok res post'
  proof -
    have "init_state c' (Some (st r)) = st r"
      using that(1-4) by (simp add: init_state_def)
    then show ?thesis using first_thread_call_token[OF that(5,6,7)] by simp
  qed
  have starts: "\<exists>res rest. trace (snd (fetch_all_comments c' api' (Some (st r)) (Suc n')))
      = CallThreads (page_token (st r)) res # rest"
    if "resume c'" "truthy (save_state_path c')" "truthy (api_key c')"
      "video_id c' = st_video_id (st r)" "order c' = st_order (st r)"
      "current_top_id (st r) = None"
    for c' api' n'
  proof -
    let ?r0 = "\<lparr>st = st r, rows = [], total_rows = 0, fetched_threads = 0, trace = []\<rparr>"
    have i: "init_state c' (Some (st r)) = st r"
      using that(1,2,4,5) by (simp add: init_state_def)
    have "fetch_all_comments c' api' (Some (st r)) (Suc n')
        = thread_loop c' api' (Suc n') (page_token (st r)) {} ?r0"
      using that(3,6) by (subst fetch_all_comments_unfold) (simp add: i del: thread_loop_Suc)
    then show ?thesis
      using thread_loop_starts [of c' api' n' "page_token (st r)" "{}" ?r0] by simp
  qed
  show ?thesis using s f shape held resumed starts by blast
qed

text \<open>
  The demo service has one thread page with the thread \<open>a\<close> and its reply \<open>a1\<close>. With
  \<open>max_top_level = 1\<close> the run returns the row of \<open>a\<close> only, the last state it writes is
  its final state, and the resume from that state starts with a thread-list request at
  the \<open>page_token\<close> of that state.
\<close>

theorem top_level_limit_stops_at_once_witness:
  "fst (fetch_all_comments (demo_config\<lparr>max_top_level := Some 1\<rparr>) demo_remote None 3)
     = Returned
   \<and> fetched_threads
       (snd (fetch_all_comments (demo_config\<lparr>max_top_level := Some 1\<rparr>) demo_remote None 3))
     = 1
   \<and> map comment_id
       (rows (snd (fetch_all_comments (demo_config\<lparr>max_top_level := Some 1\<rparr>) demo_remote None 3)))
     = [''a'']
   \<and> last (saved (trace
       (snd (fetch_all_comments (demo_config\<lparr>max_top_level := Some 1\<rparr>) demo_remote None 3))))
     = st (snd (fetch_all_comments (demo_config\<lparr>max_top_level := Some 1\<rparr>) demo_remote None 3))
   \<and> page_token
       (st (snd (fetch_all_comments (demo_config\<lparr>max_top_level := Some 1\<rparr>) demo_remote None 3)))
     = None
   \<and> take 1 (trace (snd (fetch_all_comments (demo_config\<lparr>resume := True\<rparr>) demo_remote
        (Some (st (snd (fetch_all_comments (demo_config\<lparr>max_top_level := Some 1\<rparr>)
           demo_remote None 3)))) 3)))
     = [CallThreads
          (page_token (st (snd (fetch_all_comments (demo_config\<lparr>max_top_level := Some 1\<rparr>)
             demo_remote None 3))))
          (list_threads demo_remote 0 None)]"
proof -
  let ?c = "demo_config\<lparr>max_top_level := Some 1\<rparr>"
  let ?F = "fetch_all_comments ?c demo_remote None 3"
  let ?c' = "demo_config\<lparr>resume := True\<rparr>"
  let ?R = "fetch_all_comments ?c' demo_remote (Some (st (snd ?F))) 3"
  have f: "?F = (fst ?F, snd ?F)" by simp
  have m: "max_top_level ?c = Some 1" by simp
  have k: "1 \<le> fetched_threads (snd ?F)" by code_simp
  have a: "map comment_id (rows (snd ?F)) = [''a'']" by code_simp
  note T = top_level_limit_stops_at_once [OF m zero_less_one f k]
  have r: "fst ?F = Returned" "fetched_threads (snd ?F) = 1"
    using T [THEN conjunct1] T [THEN conjunct2, THEN conjunct1] by simp_all
  have "truthy (save_state_path ?c)" by code_simp
  then have h: "last (saved (trace (snd ?F))) = st (snd ?F)"
    using T [THEN conjunct2, THEN conjunct2, THEN conjunct2, THEN conjunct1] by blast
  have g: "resume ?c'" "truthy (save_state_path ?c')"
    "video_id ?c' = st_video_id (st (snd ?F))" "order ?c' = st_order (st (snd ?F))"
    by code_simp+
  have "take 1 (trace (snd ?R)) = [CallThreads None (list_threads demo_remote 0 None)]"
    by code_simp
  then have t: "trace (snd ?R)
      = [] @ CallThreads None (list_threads demo_remote 0 None) # drop 1 (trace (snd ?R))"
    using append_take_drop_id [of 1 "trace (snd ?R)"] by simp
  have "None = page_token (st (snd ?F))"
    using T [THEN conjunct2, THEN conjunct2, THEN conjunct2, THEN conjunct2, THEN conjunct1,
        rule_format,
        of ?c' demo_remote 3 "fst ?R" "snd ?R" "[]" None "list_threads demo_remote 0 None"
          "drop 1 (trace (snd ?R))"]
      g t
    by simp
  then have q: "page_token (st (snd ?F)) = None" by simp
  have "truthy (api_key ?c')" "current_top_id (st (snd ?F)) = None" by code_simp+
  then obtain res rest where
    "trace (snd (fetch_all_comments ?c' demo_remote (Some (st (snd ?F))) (Suc 2)))
       = CallThreads (page_token (st (snd ?F))) res # rest"
    using T [THEN conjunct2, THEN conjunct2, THEN conjunct2, THEN conjunct2, THEN conjunct2,
        rule_format, of ?c' demo_remote 2] g
    by blast
  then have "trace (snd ?R) = CallThreads (page_token (st (snd ?F))) res # rest"
    by (simp add: numeral_3_eq_3)
  then have p: "take 1 (trace (snd ?R))
      = [CallThreads (page_token (st (snd ?F))) (list_threads demo_remote 0 None)]"
    using \<open>take 1 (trace (snd ?R)) = [CallThreads None (list_threads demo_remote 0 None)]\<close>
    by simp
  from r a h q p show ?thesis by simp
qed

text \<open>
  The claim as stated promises that the replies of the final thread are absent from any
  resume from the saved checkpoint. In the run above the limit is reached on the last
  thread page, so the saved \<open>page_token\<close> is null; the resume from that checkpoint starts
  at the first page again and emits \<open>a\<close> with its reply \<open>a1\<close>.
\<close>

theorem top_level_limit_resume_counterexample:
  "map comment_id
       (rows (snd (fetch_all_comments (demo_config\<lparr>max_top_level := Some 1\<rparr>) demo_remote None 3)))
     = [''a'']
   \<and> saved (trace (snd (fetch_all_comments (demo_config\<lparr>max_top_level := Some 1\<rparr>)
        demo_remote None 3)))
     = [st (snd (fetch_all_comments (demo_config\<lparr>max_top_level := Some 1\<rparr>) demo_remote None 3))]
   \<and> page_token (st (snd (fetch_all_comments (demo_config\<lparr>max_top_level := Some 1\<rparr>)
        demo_remote None 3))) = None
   \<and> map (\<lambda>x. (comment_id x, parent_id x))
       (rows (snd (fetch_all_comments (demo_config\<lparr>resume := True\<rparr>) demo_remote
          (Some (st (snd (fetch_all_comments (demo_config\<lparr>max_top_level := Some 1\<rparr>)
             demo_remote None 3)))) 3)))
     = [(''a'', None), (''a1'', Some ''a''), (''a1'', Some ''a'')]"
  by code_simp

section \<open>Every persisted state keeps the invariant\<close>

lemma saves_from_append:
  "saves_from st0 pre (xs @ ys) = (saves_from st0 pre xs \<and> saves_from st0 (pre @ xs) ys)"
  by (induction xs arbitrary: pre) simp_all

lemma saved_no_saves:
  "list_all (\<lambda>e. case e of Save _ \<Rightarrow> False | _ \<Rightarrow> True) seg \<Longrightarrow> saved seg = []"
  by (induction seg rule: saved.induct) simp_all

lemma last_saved_simps [simp]:
  "last_saved st0 [] = st0"
  "last_saved st0 (tr @ [Save s]) = s"
  "last_saved st0 (tr @ [Emit x]) = last_saved st0 tr"
  "last_saved st0 (tr @ [CallThreads tok res]) = last_saved st0 tr"
  "last_saved st0 (tr @ [CallReplies tid tok res']) = last_saved st0 tr"
  by (simp_all add: last_saved_def)

lemma checkpoint_inv_call:
  assumes "checkpoint_inv c st0 r" "is_call e"
  shows "checkpoint_inv c st0 (r\<lparr>trace := trace r @ [e]\<rparr>)"
  using assms by (cases e) (simp_all add: checkpoint_inv_def saves_from_append)

lemma checkpoint_inv_append_row:
  assumes "checkpoint_inv c st0 r"
  shows "checkpoint_inv c st0 (append_row x r)"
    "checkpoint_inv c st0 ((append_row x r)\<lparr>fetched_threads := k\<rparr>)"
  using assms by (simp_all add: checkpoint_inv_def saves_from_append)

lemma checkpoint_inv_save_state:
  assumes "checkpoint_inv c st0 r" "processed_top_level s' = processed_top_level (st r)"
    "not_done_while_current s'"
  shows "checkpoint_inv c st0 (save_state c (r\<lparr>st := s'\<rparr>))"
  using assms
  by (simp add: checkpoint_inv_def saves_from_append final_save_def save_ok_def)

lemma checkpoint_inv_maybe_checkpoint:
  assumes "checkpoint_inv c st0 r"
  shows "checkpoint_inv c st0 (maybe_checkpoint c r)"
  using assms
  by (simp add: checkpoint_inv_def saves_from_append checkpoint_events_def final_save_def
      save_ok_def)

lemma checkpoint_inv_st:
  assumes "checkpoint_inv c st0 r" "processed_top_level s' = processed_top_level (st r)"
    "not_done_while_current s'"
  shows "checkpoint_inv c st0 (r\<lparr>st := s'\<rparr>)"
  using assms by (simp add: checkpoint_inv_def)

lemma checkpoint_inv_mark_processed:
  assumes "checkpoint_inv c st0 r" "replies_finished tid (trace r)"
  shows "checkpoint_inv c st0 (save_state c (r\<lparr>st := mark_processed tid (st r)\<rparr>))"
  using assms
  by (auto simp: checkpoint_inv_def saves_from_append final_save_def save_ok_def
      mark_processed_def not_done_while_current_def)

lemma not_done_reply_page_token [simp]:
  "not_done_while_current (s\<lparr>reply_page_token := t\<rparr>) = not_done_while_current s"
  "not_done_while_current (s\<lparr>page_token := t\<rparr>) = not_done_while_current s"
  by (simp_all add: not_done_while_current_def split: option.splits)

lemma checkpoint_inv_emit_replies:
  assumes "checkpoint_inv c st0 r"
    and "\<And>s. processed_top_level (upd s) = processed_top_level s"
    and "\<And>s. not_done_while_current (upd s) = not_done_while_current s"
  shows "checkpoint_inv c st0 (snd (emit_replies c tid upd xs r))"
  using assms(1)
proof (induction xs arbitrary: r)
  case Nil
  then show ?case by simp
next
  case (Cons x xs)
  let ?r1 = "maybe_checkpoint c (append_row (mk_row c (cid x) (Some tid) (snip x)) r)"
  have j1: "checkpoint_inv c st0 ?r1"
    using Cons.prems by (intro checkpoint_inv_maybe_checkpoint checkpoint_inv_append_row)
  have "not_done_while_current (st r)" using Cons.prems by (simp add: checkpoint_inv_def)
  then have "checkpoint_inv c st0 (save_state c (?r1\<lparr>st := upd (st r)\<rparr>))"
    using j1 assms(2,3) by (intro checkpoint_inv_save_state) simp_all
  then show ?case using Cons.IH[OF j1] by simp
qed

lemma checkpoint_inv_reply_loop:
  assumes "checkpoint_inv c st0 r"
  shows "checkpoint_inv c st0 (snd (reply_loop c api resuming n tid tok r))"
  using assms
proof (induction n arbitrary: tok r)
  case 0
  then show ?case by simp
next
  case (Suc n)
  have nd: "not_done_while_current (st r)" using Suc.prems by (simp add: checkpoint_inv_def)
  show ?case
  proof (cases "list_replies api (ncalls (trace r)) tid tok")
    case (Inl m)
    let ?r1 = "r\<lparr>trace := trace r @ [CallReplies tid tok (Inl m)]\<rparr>"
    have j1: "checkpoint_inv c st0 ?r1" using Suc.prems by (intro checkpoint_inv_call) simp_all
    have "checkpoint_inv c st0 (save_state c (?r1\<lparr>st := st ?r1\<rparr>))"
      using j1 nd by (intro checkpoint_inv_save_state) simp_all
    then show ?thesis using Inl j1 by simp
  next
    case (Inr page)
    let ?upd = "if resuming then (\<lambda>s. s) else (\<lambda>s. s\<lparr>reply_page_token := r_next page\<rparr>)"
    let ?r1 = "r\<lparr>trace := trace r @ [CallReplies tid tok (Inr page)]\<rparr>"
    have j1: "checkpoint_inv c st0 ?r1" using Suc.prems by (intro checkpoint_inv_call) simp_all
    obtain s2 r2 where e: "emit_replies c tid ?upd (r_items page) ?r1 = (s2, r2)"
      by (cases "emit_replies c tid ?upd (r_items page) ?r1")
    have j2: "checkpoint_inv c st0 r2"
      using checkpoint_inv_emit_replies[OF j1, of ?upd tid "r_items page"] e by simp
    let ?r3 = "r2\<lparr>st := (st r2)\<lparr>reply_page_token := r_next page\<rparr>\<rparr>"
    have j3: "checkpoint_inv c st0 ?r3"
      using j2 by (intro checkpoint_inv_st) (simp_all add: checkpoint_inv_def)
    show ?thesis using Inr e j2 j3 Suc.IH[OF j3] by (cases s2) simp_all
  qed
qed

lemma reply_loop_Continue_finished:
  assumes "reply_loop c api resuming n tid tok r = (Continue, r')"
  shows "replies_finished tid (trace r')"
proof (cases n)
  case 0
  then show ?thesis using assms by simp
next
  case (Suc m)
  obtain res seg where "trace r' = trace r @ CallReplies tid tok res # seg"
    "replies_finished tid (CallReplies tid tok res # seg)"
    using reply_loop_trace[of c api resuming m tid tok r] assms Suc by auto
  then show ?thesis using replies_finished_prepend by simp
qed

lemma checkpoint_inv_thread_items:
  assumes "checkpoint_inv c st0 r"
  shows "checkpoint_inv c st0 (snd (thread_items c api n page its r))"
  using assms
proof (induction its arbitrary: r)
  case Nil
  then show ?case by simp
next
  case (Cons it its)
  let ?tid = "cid (topLevelComment it)"
  let ?x = "mk_row c ?tid None (snip (topLevelComment it))"
  have nd: "not_done_while_current (st r)" using Cons.prems by (simp add: checkpoint_inv_def)
  show ?case
  proof (cases "?tid \<in> processed_top_level (st r)")
    case True
    then show ?thesis using Cons.IH[OF Cons.prems] by simp
  next
    case False
    let ?r1 = "maybe_checkpoint c ((append_row ?x r)\<lparr>fetched_threads := fetched_threads r + 1\<rparr>)"
    have j1: "checkpoint_inv c st0 ?r1"
      using Cons.prems by (intro checkpoint_inv_maybe_checkpoint checkpoint_inv_append_row)
    have jl: "checkpoint_inv c st0 (save_state c (?r1\<lparr>st := (st r)\<lparr>page_token := t_next page\<rparr>\<rparr>))"
      using j1 nd by (intro checkpoint_inv_save_state) simp_all
    let ?upd = "\<lambda>s. s\<lparr>page_token := t_next page\<rparr>"
    obtain s2 r2 where e: "emit_replies c ?tid ?upd (inline_replies it) ?r1 = (s2, r2)"
      by (cases "emit_replies c ?tid ?upd (inline_replies it) ?r1")
    have j2: "checkpoint_inv c st0 r2"
      using checkpoint_inv_emit_replies[OF j1, of ?upd ?tid "inline_replies it"] e by simp
    let ?r3 = "save_state c (r2\<lparr>st := (st r2)\<lparr>current_top_id := Some ?tid,
                                               reply_page_token := None\<rparr>\<rparr>)"
    have j3: "s2 = Continue \<Longrightarrow> checkpoint_inv c st0 ?r3"
    proof -
      assume "s2 = Continue"
      then have "st r2 = st r"
        using emit_replies_st_Continue[of c ?tid ?upd "inline_replies it" ?r1 r2] e by simp
      then have "not_done_while_current ((st r2)\<lparr>current_top_id := Some ?tid,
                                               reply_page_token := None\<rparr>)"
        using False by (simp add: not_done_while_current_def)
      then show ?thesis using j2 by (intro checkpoint_inv_save_state) simp_all
    qed
    obtain s4 r4 where l: "reply_loop c api False n ?tid None ?r3 = (s4, r4)"
      by (cases "reply_loop c api False n ?tid None ?r3")
    have j4: "s2 = Continue \<Longrightarrow> checkpoint_inv c st0 r4"
      using checkpoint_inv_reply_loop[OF j3, of api False n ?tid None] l by simp
    let ?r5 = "save_state c (r4\<lparr>st := mark_processed ?tid (st r4)\<rparr>)"
    have j5: "s2 = Continue \<Longrightarrow> s4 = Continue
        \<Longrightarrow> checkpoint_inv c st0 (snd (thread_items c api n page its ?r5))"
    proof -
      assume a: "s2 = Continue" "s4 = Continue"
      have "replies_finished ?tid (trace r4)"
        using reply_loop_Continue_finished[of c api False n ?tid None ?r3 r4] l a by simp
      then have "checkpoint_inv c st0 ?r5"
        using j4[OF a(1)] by (intro checkpoint_inv_mark_processed)
      then show ?thesis by (rule Cons.IH)
    qed
    show ?thesis
      using False e l jl j2 j4 j5 Cons.IH[OF j1] Cons.IH[OF j2]
      by (cases s2; cases s4) simp_all
  qed
qed

lemma checkpoint_inv_thread_loop:
  assumes "checkpoint_inv c st0 r"
  shows "checkpoint_inv c st0 (snd (thread_loop c api n tok seen r))"
  using assms
proof (induction n arbitrary: tok seen r)
  case 0
  then show ?case by simp
next
  case (Suc n)
  have nd: "not_done_while_current (st r)" using Suc.prems by (simp add: checkpoint_inv_def)
  show ?case
  proof (cases "list_threads api (ncalls (trace r)) tok")
    case (Inl m)
    let ?r1 = "r\<lparr>trace := trace r @ [CallThreads tok (Inl m)]\<rparr>"
    have j1: "checkpoint_inv c st0 ?r1" using Suc.prems by (intro checkpoint_inv_call) simp_all
    have "checkpoint_inv c st0 (save_state c (?r1\<lparr>st := (st r)\<lparr>page_token := tok\<rparr>\<rparr>))"
      using j1 nd by (intro checkpoint_inv_save_state) simp_all
    then show ?thesis using Inl j1 Suc.IH[OF j1] by simp
  next
    case (Inr page)
    let ?r1 = "r\<lparr>trace := trace r @ [CallThreads tok (Inr page)]\<rparr>"
    have j1: "checkpoint_inv c st0 ?r1" using Suc.prems by (intro checkpoint_inv_call) simp_all
    obtain s2 r2 where e: "thread_items c api n page (t_items page) ?r1 = (s2, r2)"
      by (cases "thread_items c api n page (t_items page) ?r1")
    have j2: "checkpoint_inv c st0 r2"
      using checkpoint_inv_thread_items[OF j1, of api n page "t_items page"] e by simp
    show ?thesis using Inr e j2 Suc.IH[OF j2] by (cases s2) simp_all
  qed
qed

lemma checkpoint_inv_fetch:
  assumes "not_done_while_current (init_state c prior)"
  shows "checkpoint_inv c (init_state c prior) (snd (fetch_all_comments c api prior n))"
proof -
  let ?st0 = "init_state c prior"
  let ?r0 = "\<lparr>st = ?st0, rows = [], total_rows = 0, fetched_threads = 0, trace = []\<rparr>"
  let ?tid = "the (current_top_id ?st0)"
  have j0: "checkpoint_inv c ?st0 ?r0"
    using assms by (simp add: checkpoint_inv_def)
  obtain s1 r1 where l: "reply_loop c api True n ?tid (reply_page_token ?st0) ?r0 = (s1, r1)"
    by (cases "reply_loop c api True n ?tid (reply_page_token ?st0) ?r0")
  have j1: "checkpoint_inv c ?st0 r1"
    using checkpoint_inv_reply_loop[OF j0, of api True n ?tid "reply_page_token ?st0"] l by simp
  let ?r2 = "save_state c (r1\<lparr>st := mark_processed ?tid (st r1)\<rparr>)"
  have j2: "s1 = Continue
      \<Longrightarrow> checkpoint_inv c ?st0 (snd (thread_loop c api n (page_token (st r1)) {} ?r2))"
  proof -
    assume "s1 = Continue"
    then have "replies_finished ?tid (trace r1)"
      using reply_loop_Continue_finished[of c api True n ?tid "reply_page_token ?st0" ?r0 r1] l
      by simp
    then have "checkpoint_inv c ?st0 ?r2"
      using j1 by (intro checkpoint_inv_mark_processed)
    then show ?thesis by (rule checkpoint_inv_thread_loop)
  qed
  have j3: "checkpoint_inv c ?st0 (snd (thread_loop c api n (page_token ?st0) {} ?r0))"
    using j0 by (rule checkpoint_inv_thread_loop)
  show ?thesis
    using l j0 j1 j2 j3
    by (subst fetch_all_comments_unfold, cases s1) (simp_all del: reply_loop_Suc thread_loop_Suc)
qed

lemma saves_from_nth:
  assumes "saves_from st0 [] tr" "j < length tr" "tr ! j = Save s"
  shows "save_ok st0 (take j tr) s"
proof -
  have "tr = take j tr @ Save s # drop (Suc j) tr"
    using assms(2,3) by (metis id_take_nth_drop)
  then have "saves_from st0 [] (take j tr @ Save s # drop (Suc j) tr)"
    using assms(1) by simp
  then show ?thesis by (simp add: saves_from_append)
qed

text \<open>
  C2. When the run starts from a state that keeps the invariant (a fresh state, or a
  loaded checkpoint in which \<open>current_top_id\<close> does not name a processed thread), every
  traversal state the run writes to the checkpoint store keeps it: no written state
  records a thread in \<open>processed_top_level\<close> while \<open>current_top_id\<close> names it. A thread id
  that is new in a written state, compared with the state the store held before, comes
  with \<open>current_top_id\<close> and \<open>reply_page_token\<close> cleared in that same written state, and
  the last remote call before the write is a reply-page request for that thread that
  announced no further page. No processed id is ever dropped.
\<close>

theorem persisted_states_invariant:
  assumes "not_done_while_current (init_state c prior)"
    and "fetch_all_comments c api prior n = (s, r)"
    and "j < length (trace r)" and "trace r ! j = Save s'"
  shows "(\<forall>t. current_top_id s' = Some t \<longrightarrow> t \<notin> processed_top_level s')
     \<and> processed_top_level (last_saved (init_state c prior) (take j (trace r)))
         \<subseteq> processed_top_level s'
     \<and> (\<forall>t. t \<in> processed_top_level s'
            \<and> t \<notin> processed_top_level (last_saved (init_state c prior) (take j (trace r)))
          \<longrightarrow> current_top_id s' = None \<and> reply_page_token s' = None
              \<and> replies_finished t (take j (trace r)))"
proof -
  have "checkpoint_inv c (init_state c prior) r"
    using checkpoint_inv_fetch[OF assms(1), of api n] assms(2) by simp
  then have "saves_from (init_state c prior) [] (trace r)"
    by (simp add: checkpoint_inv_def)
  from saves_from_nth[OF this assms(3,4)]
  have "save_ok (init_state c prior) (take j (trace r)) s'" .
  then show ?thesis
    by (auto simp: save_ok_def not_done_while_current_def)
qed

theorem persisted_states_invariant_witness:
  "trace (snd (fetch_all_comments demo_config demo_remote None 3)) ! 6
     = Save (st (snd (fetch_all_comments demo_config demo_remote None 3)))
   \<and> ''a'' \<in> processed_top_level (st (snd (fetch_all_comments demo_config demo_remote None 3)))
   \<and> current_top_id (st (snd (fetch_all_comments demo_config demo_remote None 3))) = None
   \<and> reply_page_token (st (snd (fetch_all_comments demo_config demo_remote None 3))) = None
   \<and> replies_finished ''a'' (take 6 (trace (snd (fetch_all_comments demo_config demo_remote None 3))))"
proof -
  let ?F = "fetch_all_comments demo_config demo_remote None 3"
  have f: "?F = (fst ?F, snd ?F)" by simp
  have i: "not_done_while_current (init_state demo_config None)" by code_simp
  have j: "6 < length (trace (snd ?F))" by code_simp
  have t: "trace (snd ?F) ! 6 = Save (st (snd ?F))" by code_simp
  have a: "''a'' \<in> processed_top_level (st (snd ?F))" by code_simp
  have b: "''a'' \<notin> processed_top_level
      (last_saved (init_state demo_config None) (take 6 (trace (snd ?F))))"
    by code_simp
  from persisted_states_invariant [OF i f j t] a b t show ?thesis by blast
qed

section \<open>A pagination fault is retried once from the start\<close>

lemma retry_mode_of_snoc [simp]:
  "retry_mode_of (tr @ [e]) = retry_step (retry_mode_of tr) e"
  by (simp add: retry_mode_of_def)

lemma retry_mode_of_append:
  "retry_mode_of (tr @ seg) = foldl retry_step (retry_mode_of tr) seg"
  by (simp add: retry_mode_of_def)

lemma retry_normal_other:
  "list_all (\<lambda>e. \<not> thread_call e) seg \<Longrightarrow> foldl retry_step Normal seg = Normal"
proof (induction seg)
  case Nil
  show ?case by simp
next
  case (Cons e seg)
  then have "\<not> recoverable_fault e"
    by (cases e) (simp_all add: recoverable_fault_def)
  then show ?case using Cons by simp
qed

lemma retry_normal_append:
  assumes "retry_mode_of tr = Normal" "list_all (\<lambda>e. \<not> thread_call e) seg"
  shows "retry_mode_of (tr @ seg) = Normal"
  using assms retry_normal_other by (simp add: retry_mode_of_append)

lemma retry_normal_saves [simp]:
  "retry_mode_of tr = Normal \<Longrightarrow> retry_mode_of (tr @ final_save c r) = Normal"
  "retry_mode_of tr = Normal \<Longrightarrow> retry_mode_of (tr @ checkpoint_events c r) = Normal"
  by (auto intro!: retry_normal_append no_calls_no_thread_calls)

lemma retry_normal_emit_replies:
  assumes "retry_mode_of (trace r) = Normal"
  shows "retry_mode_of (trace (snd (emit_replies c tid upd xs r))) = Normal"
proof -
  obtain seg where "trace (snd (emit_replies c tid upd xs r)) = trace r @ seg"
    "list_all (\<lambda>e. \<not> is_call e) seg"
    using emit_replies_trace[of c tid upd xs r] by blast
  then show ?thesis using assms retry_normal_append no_calls_no_thread_calls by simp
qed

lemma retry_normal_reply_loop:
  assumes "retry_mode_of (trace r) = Normal"
  shows "retry_mode_of (trace (snd (reply_loop c api resuming n tid tok r))) = Normal"
proof (cases n)
  case 0
  then show ?thesis using assms by simp
next
  case (Suc m)
  obtain res seg where t: "trace (snd (reply_loop c api resuming (Suc m) tid tok r))
      = trace r @ CallReplies tid tok res # seg" and o: "only_replies_to tid seg"
    using reply_loop_trace[of c api resuming m tid tok r] by blast
  have "list_all (\<lambda>e. \<not> thread_call e) (CallReplies tid tok res # seg)"
    using only_replies_no_thread_calls[OF o] by simp
  from retry_normal_append[OF assms this] show ?thesis unfolding Suc t .
qed

lemma retry_normal_thread_items:
  assumes "retry_mode_of (trace r) = Normal"
  shows "retry_mode_of (trace (snd (thread_items c api n page its r))) = Normal"
  using assms
proof (induction its arbitrary: r)
  case Nil
  then show ?case by simp
next
  case (Cons it its)
  let ?tid = "cid (topLevelComment it)"
  let ?x = "mk_row c ?tid None (snip (topLevelComment it))"
  let ?r1 = "maybe_checkpoint c ((append_row ?x r)\<lparr>fetched_threads := fetched_threads r + 1\<rparr>)"
  have ne: "\<not> recoverable_fault (Emit ?x)" by (simp add: recoverable_fault_def)
  have m1: "retry_mode_of (trace ?r1) = Normal"
    using Cons.prems ne
      retry_normal_saves(2)[of "trace r @ [Emit ?x]" c
        "(append_row ?x r)\<lparr>fetched_threads := fetched_threads r + 1\<rparr>"]
    by simp
  let ?upd = "\<lambda>s. s\<lparr>page_token := t_next page\<rparr>"
  obtain s2 r2 where e: "emit_replies c ?tid ?upd (inline_replies it) ?r1 = (s2, r2)"
    by (cases "emit_replies c ?tid ?upd (inline_replies it) ?r1")
  have m2: "retry_mode_of (trace r2) = Normal"
    using retry_normal_emit_replies[OF m1, of c ?tid ?upd "inline_replies it"] e by simp
  let ?r3 = "save_state c (r2\<lparr>st := (st r2)\<lparr>current_top_id := Some ?tid,
                                             reply_page_token := None\<rparr>\<rparr>)"
  have m3: "retry_mode_of (trace ?r3) = Normal" using m2 by simp
  obtain s4 r4 where l: "reply_loop c api False n ?tid None ?r3 = (s4, r4)"
    by (cases "reply_loop c api False n ?tid None ?r3")
  have m4: "retry_mode_of (trace r4) = Normal"
    using retry_normal_reply_loop[OF m3, of c api False n ?tid None] l by simp
  let ?r5 = "save_state c (r4\<lparr>st := mark_processed ?tid (st r4)\<rparr>)"
  have m5: "retry_mode_of (trace ?r5) = Normal" using m4 by simp
  have ml: "retry_mode_of (trace (save_state c (?r1\<lparr>st := s'\<rparr>))) = Normal" for s'
    using m1 retry_normal_saves(1)[of "trace ?r1" c "?r1\<lparr>st := s'\<rparr>"] by simp
  show ?case
    using e l m2 m4 ml Cons.IH[OF Cons.prems] Cons.IH[OF m1] Cons.IH[OF m2] Cons.IH[OF m5]
    by (cases s2; cases s4) simp_all
qed

lemma retry_post_thread_loop:
  assumes "retry_mode_of (trace r) = Normal
           \<or> (retry_mode_of (trace r) = AfterFault \<and> tok = None)"
  shows "retry_post (thread_loop c api n tok seen r)"
  using assms
proof (induction n arbitrary: tok seen r)
  case 0
  then show ?case by (auto simp: retry_post_def)
next
  case (Suc n)
  show ?case
  proof (cases "list_threads api (ncalls (trace r)) tok")
    case (Inr page)
    let ?r1 = "r\<lparr>trace := trace r @ [CallThreads tok (Inr page)]\<rparr>"
    have m1: "retry_mode_of (trace ?r1) = Normal"
      using Suc.prems by (auto simp: recoverable_fault_def)
    obtain s2 r2 where e: "thread_items c api n page (t_items page) ?r1 = (s2, r2)"
      by (cases "thread_items c api n page (t_items page) ?r1")
    have m2: "retry_mode_of (trace r2) = Normal"
      using retry_normal_thread_items[OF m1, of c api n page "t_items page"] e by simp
    have rec: "retry_post (thread_loop c api n tok' seen' r2)" for tok' seen'
      using m2 by (intro Suc.IH) simp
    show ?thesis using Inr e m2 rec
      by (cases s2) (simp_all add: retry_post_def)
  next
    case (Inl m)
    let ?e = "CallThreads tok (Inl m)"
    let ?r1 = "r\<lparr>trace := trace r @ [?e]\<rparr>"
    show ?thesis
    proof (cases "contains ''quotaExceeded'' m")
      case True
      then have "retry_mode_of (trace ?r1) = Normal"
        using Suc.prems by (auto simp: recoverable_fault_def)
      then have "retry_mode_of (trace (save_state c (?r1\<lparr>st := (st r)\<lparr>page_token := tok\<rparr>\<rparr>)))
          = Normal"
        using retry_normal_saves(1)[of "trace ?r1" c "?r1\<lparr>st := (st r)\<lparr>page_token := tok\<rparr>\<rparr>"]
        by simp
      then show ?thesis using Inl True by (simp add: retry_post_def)
    next
      case nq: False
      show ?thesis
      proof (cases "recoverable_fault ?e")
        case True
        then have tt: "truthy tok" by (simp add: recoverable_fault_def)
        then have "retry_mode_of (trace r) = Normal" using Suc.prems by auto
        then have af: "retry_mode_of (trace ?r1) = AfterFault" using True by simp
        have "thread_loop c api (Suc n) tok seen r = thread_loop c api n None seen ?r1"
          using Inl nq True by (simp add: recoverable_fault_def)
        moreover have "retry_post (thread_loop c api n None seen ?r1)"
          using af by (intro Suc.IH) simp
        ultimately show ?thesis by simp
      next
        case False
        have res: "thread_loop c api (Suc n) tok seen r = (Raised m, ?r1)"
          using Inl nq False by (auto simp: recoverable_fault_def)
        show ?thesis
        proof (cases "retry_mode_of (trace r) = Normal")
          case True
          then have "retry_mode_of (trace ?r1) = Normal" using False by simp
          then show ?thesis unfolding res by (simp add: retry_post_def)
        next
          case nn: False
          then have "retry_mode_of (trace r) = AfterFault" "tok = None" using Suc.prems by auto
          then have "retry_mode_of (trace ?r1) = Dead m" using nq by simp
          then show ?thesis unfolding res by (simp add: retry_post_def)
        qed
      qed
    qed
  qed
qed

lemma retry_post_fetch: "retry_post (fetch_all_comments c api prior n)"
proof -
  let ?r0 = "\<lparr>st = init_state c prior, rows = [], total_rows = 0, fetched_threads = 0,
              trace = []\<rparr>"
  let ?tid = "the (current_top_id (init_state c prior))"
  have m0: "retry_mode_of (trace ?r0) = Normal" by (simp add: retry_mode_of_def)
  obtain s1 r1 where l: "reply_loop c api True n ?tid (reply_page_token (init_state c prior)) ?r0
      = (s1, r1)"
    by (cases "reply_loop c api True n ?tid (reply_page_token (init_state c prior)) ?r0")
  have m1: "retry_mode_of (trace r1) = Normal"
    using retry_normal_reply_loop[OF m0, of c api True n ?tid
        "reply_page_token (init_state c prior)"] l by simp
  let ?r2 = "save_state c (r1\<lparr>st := mark_processed ?tid (st r1)\<rparr>)"
  have m2: "retry_mode_of (trace ?r2) = Normal" using m1 by simp
  have a: "retry_post (thread_loop c api n (page_token (st r1)) {} ?r2)"
    using m2 by (intro retry_post_thread_loop) simp
  have b: "retry_post (thread_loop c api n (page_token (init_state c prior)) {} ?r0)"
    using m0 by (intro retry_post_thread_loop) simp
  have o: "retry_post (s', r1)" "retry_post (s', ?r0)" for s'
    using m0 m1 by (simp_all add: retry_post_def)
  show ?thesis
    using l a b o
    by (subst fetch_all_comments_unfold, cases s1) (simp_all del: reply_loop_Suc thread_loop_Suc)
qed

lemma retry_bad_absorbs [simp]: "foldl retry_step Bad tr = Bad"
  by (induction tr) simp_all

lemma retry_dead_absorbs: "foldl retry_step (Dead m) tr \<noteq> Bad \<Longrightarrow> tr = []"
  by (cases tr) simp_all

lemma retry_after_fault:
  assumes "foldl retry_step q (e # post) \<noteq> Bad" "recoverable_fault e"
  shows "q = Normal"
proof (cases q)
  case AfterFault
  obtain tok m where "e = CallThreads tok (Inl m)" "truthy tok"
    using assms(2) by (cases e) (auto simp: recoverable_fault_def split: sum.splits)
  then have "retry_step AfterFault e = Bad" by (cases tok) simp_all
  then show ?thesis using assms(1) AfterFault by simp
qed (use assms(1) in simp_all)

lemma retry_step_after_fault:
  assumes "retry_step AfterFault e \<noteq> Bad"
  shows "\<exists>res. e = CallThreads None res"
proof (cases e)
  case (CallThreads tok res)
  then show ?thesis using assms by (cases tok; cases res) auto
qed (use assms in auto)

text \<open>
  C4 (amended). For every run, whenever a thread-list request made with a non-empty page
  token fails with a pagination fault (a message with \<open>processingFailure\<close> or
  \<open>invalidPageToken\<close> and without \<open>quotaExceeded\<close>), the very next thing the run does is
  one retry, a thread-list request from the start of the sequence (no page token); when
  the fuel of the model ends before the retry, the run is reported as out of fuel. If the
  retried request fails with any error that is not a quota error, in particular with the
  same fault, that error propagates to the caller and the run does nothing after it.
\<close>

theorem pagination_fault_retried_once:
  assumes "fetch_all_comments c api prior n = (s, r)"
    and "trace r = pre @ e # post"
    and "recoverable_fault e"
  shows "(post = [] \<and> s = OutOfFuel)
     \<or> (\<exists>res post'. post = CallThreads None res # post'
           \<and> (\<forall>m. res = Inl m \<and> \<not> contains ''quotaExceeded'' m
                    \<longrightarrow> s = Raised m \<and> post' = []))"
proof -
  have p: "retry_post (s, r)" using retry_post_fetch[of c api prior n] assms(1) by simp
  let ?q = "retry_mode_of pre"
  have fin: "retry_mode_of (trace r) = foldl retry_step ?q (e # post)"
    unfolding assms(2) by (simp add: retry_mode_of_append)
  have nb: "retry_mode_of (trace r) \<noteq> Bad" using p by (auto simp: retry_post_def)
  have q: "?q = Normal" using retry_after_fault[of ?q e post] nb fin assms(3) by simp
  have fin2: "retry_mode_of (trace r) = foldl retry_step AfterFault post"
    using fin q assms(3) by simp
  show ?thesis
  proof (cases post)
    case Nil
    then have "retry_mode_of (trace r) = AfterFault" using fin2 by simp
    then show ?thesis using p Nil by (simp add: retry_post_def)
  next
    case (Cons e' post')
    have nb': "foldl retry_step (retry_step AfterFault e') post' \<noteq> Bad"
      using nb fin2 Cons by simp
    then have s1: "retry_step AfterFault e' \<noteq> Bad" by auto
    then obtain res where e': "e' = CallThreads None res"
      using retry_step_after_fault by blast
    have "s = Raised m \<and> post' = []" if "res = Inl m" "\<not> contains ''quotaExceeded'' m" for m
    proof -
      have d: "retry_step AfterFault e' = Dead m" using that e' by simp
      then have "post' = []" using nb' retry_dead_absorbs by simp
      then have "retry_mode_of (trace r) = Dead m" using fin2 Cons d by simp
      then show ?thesis using p \<open>post' = []\<close> by (simp add: retry_post_def)
    qed
    then show ?thesis using Cons e' by blast
  qed
qed

theorem pagination_fault_retried_once_witness:
  "recoverable_fault (CallThreads (Some ''A'') (Inl ''HttpError 400: invalidPageToken''))
   \<and> fst (fetch_all_comments demo_config broken_remote None 5)
       = Raised ''HttpError 400: invalidPageToken''
   \<and> drop 3 (trace (snd (fetch_all_comments demo_config broken_remote None 5)))
       = [CallThreads None (Inl ''HttpError 400: invalidPageToken'')]"
proof -
  let ?F = "fetch_all_comments demo_config broken_remote None 5"
  let ?e = "CallThreads (Some ''A'') (Inl ''HttpError 400: invalidPageToken'')"
  have f: "?F = (fst ?F, snd ?F)" by simp
  have t: "trace (snd ?F) = take 2 (trace (snd ?F)) @ ?e # drop 3 (trace (snd ?F))"
    by code_simp
  have q: "recoverable_fault ?e" by code_simp
  have d: "hd (drop 3 (trace (snd ?F))) = CallThreads None (Inl ''HttpError 400: invalidPageToken'')"
    "drop 3 (trace (snd ?F)) \<noteq> []"
    "\<not> contains ''quotaExceeded'' ''HttpError 400: invalidPageToken''"
    by code_simp+
  from pagination_fault_retried_once [OF f t q] d q show ?thesis
    by (cases "drop 3 (trace (snd ?F))") auto
qed

text \<open>
  The claim as stated escalates a fault that occurs again in the same sequence. On
  \<open>stale_remote\<close> the fault occurs twice in the thread-list sequence of one run, at the
  tokens \<open>A\<close> and \<open>B\<close>; each time the run restarts from the first page, and it returns
  normally.
\<close>

theorem pagination_fault_twice_counterexample:
  "recoverable_fault (trace (snd (fetch_all_comments demo_config stale_remote None 6)) ! 2)
   \<and> recoverable_fault (trace (snd (fetch_all_comments demo_config stale_remote None 6)) ! 5)
   \<and> fst (fetch_all_comments demo_config stale_remote None 6) = Returned
   \<and> map comment_id (rows (snd (fetch_all_comments demo_config stale_remote None 6)))
       = [''a'', ''a'', ''a'']"
  by code_simp

section \<open>The \<open>max_top_level\<close> limit on a well-behaved upstream\<close>

lemma tok_index_chain_tok [simp]: "tok_index (chain_tok j) = j"
  by (simp add: tok_index_def chain_tok_def)

lemma truthy_chain_tok [simp]: "truthy (chain_tok j) = (0 < j)"
  by (simp add: chain_tok_def)

lemma the_chain_tok: "0 < j \<Longrightarrow> the (chain_tok j) = replicate j CHR ''p''"
  by (simp add: chain_tok_def)

lemma top_level_count_simps [simp]:
  "top_level_count [] = 0"
  "top_level_count (rs @ [x]) = top_level_count rs + (if parent_id x = None then 1 else 0)"
  by (simp_all add: top_level_count_def)

lemma parent_id_mk_row [simp]: "parent_id (mk_row c i p s) = p"
  by (simp add: mk_row_def)

lemma comment_id_mk_row [simp]: "comment_id (mk_row c i p s) = i"
  by (simp add: mk_row_def)



lemma chain_tok_0 [simp]: "chain_tok 0 = None"
  by (simp add: chain_tok_def)

lemma thread_ids_simps [simp]:
  "thread_ids [] = []"
  "thread_ids (it # its) = cid (topLevelComment it) # thread_ids its"
  "thread_ids (xs @ ys) = thread_ids xs @ thread_ids ys"
  by (simp_all add: thread_ids_def)








end
